theory Spec2Isabelle
  imports Main "HOL-Library.Word"
begin

section \<open>Constants of \<open>scrcpy_client.py\<close>\<close>

definition SERVER_VERSION :: string where
  "SERVER_VERSION = ''3.3.3''"

definition SERVER_REMOTE_PATH :: string where
  "SERVER_REMOTE_PATH = ''/data/local/tmp/scrcpy-server.jar''"

definition SOCKET_NAME_PREFIX :: string where
  "SOCKET_NAME_PREFIX = ''scrcpy''"

definition DEFAULT_BIT_RATE :: nat where
  "DEFAULT_BIT_RATE = 8000000"

definition DEFAULT_MAX_FPS :: nat where
  "DEFAULT_MAX_FPS = 30"

definition DEVICE_NAME_FIELD_LENGTH :: nat where
  "DEVICE_NAME_FIELD_LENGTH = 64"

definition CODEC_ID_FIELD_LENGTH :: nat where
  "CODEC_ID_FIELD_LENGTH = 4"

definition VIDEO_HEADER_FIELD_LENGTH :: "nat \<times> nat" where
  "VIDEO_HEADER_FIELD_LENGTH = (4, 4)"

section \<open>Formatting of integers\<close>

text \<open>
  \<open>str(n)\<close> and the format specifications \<open>{n:x}\<close> and \<open>{n:08x}\<close> of Python, for the
  non-negative integers the client formats (the bit rate, the frame rate and the session
  identifier, which \<open>random.randint(0, 0x7FFFFFFF)\<close> draws).
\<close>

definition digit_char :: "nat \<Rightarrow> char" where
  "digit_char d = (''0123456789abcdef'') ! d"

fun digits :: "nat \<Rightarrow> nat \<Rightarrow> string" where
  "digits b n =
     (if b < 2 \<or> n < b then [digit_char n]
      else digits b (n div b) @ [digit_char (n mod b)])"

declare digits.simps [simp del]

definition str_nat :: "nat \<Rightarrow> string" where
  "str_nat n = digits 10 n"

definition hex_nat :: "nat \<Rightarrow> string" where
  "hex_nat n = digits 16 n"

definition hex08_nat :: "nat \<Rightarrow> string" where
  "hex08_nat n = (let h = hex_nat n in replicate (8 - length h) (CHR ''0'') @ h)"

section \<open>Dictionaries\<close>

text \<open>
  A Python \<open>dict\<close> keeps its keys in insertion order and holds each key once: it is an
  association list with distinct keys. Storing under a key that is present replaces the
  value in place; a new key goes to the end. \<open>a | b\<close> copies \<open>a\<close> and stores the entries
  of \<open>b\<close> in their order.
\<close>

type_synonym ('k, 'v) dict = "('k \<times> 'v) list"

fun dict_set :: "('k, 'v) dict \<Rightarrow> 'k \<Rightarrow> 'v \<Rightarrow> ('k, 'v) dict" where
  "dict_set [] k v = [(k, v)]"
| "dict_set ((k', v') # d) k v =
     (if k' = k then (k, v) # d else (k', v') # dict_set d k v)"

definition dict_or :: "('k, 'v) dict \<Rightarrow> ('k, 'v) dict \<Rightarrow> ('k, 'v) dict" where
  "dict_or a b = fold (\<lambda>(k, v) d. dict_set d k v) b a"

section \<open>Arguments of the remote server\<close>

definition predefined :: "(string, string) dict" where
  "predefined =
     [(''log_level'', ''info''),
      (''video_bit_rate'', str_nat DEFAULT_BIT_RATE),
      (''max_fps'', str_nat DEFAULT_MAX_FPS),
      (''audio'', ''false'')]"

definition arg_token :: "string \<times> string \<Rightarrow> string" where
  "arg_token kv = fst kv @ ''='' @ snd kv"

text \<open>
  \<open>_get_server_args\<close> reads two fields of the client: the session identifier and the
  caller's overrides.
\<close>

definition get_server_args :: "nat \<Rightarrow> (string, string) dict \<Rightarrow> string list" where
  "get_server_args scid_v custom =
     (let all = dict_or predefined custom;
          server_args = [SERVER_VERSION, ''scid='' @ hex_nat scid_v]
      in foldl (\<lambda>acc kv. acc @ [arg_token kv]) server_args all)"



section \<open>The client and what it acts on\<close>

type_synonym byte = "8 word"
type_synonym bytes = "byte list"

text \<open>A Python \<open>str\<close> is a sequence of Unicode code points.\<close>

type_synonym ustr = "nat list"

definition ustr_of :: "string \<Rightarrow> ustr" where
  "ustr_of s = map of_char s"

text \<open>A decoded frame, after \<open>to_ndarray(format="bgr24")\<close>: its pixel bytes.\<close>

type_synonym ndarray = "byte list"

datatype ListenEvent = FRAME | INIT

text \<open>
  The exceptions of the program, all instances of \<open>Exception\<close>. In Python
  \<open>socket.error\<close> and \<open>IOError\<close> are \<open>OSError\<close>, and \<open>socket.timeout\<close>,
  \<open>ConnectionAbortedError\<close>, \<open>BrokenPipeError\<close>, \<open>ConnectionResetError\<close> and
  \<open>FileNotFoundError\<close> are subclasses of it; \<open>UnicodeDecodeError\<close> is a \<open>ValueError\<close>, and
  \<open>av.InvalidDataError\<close> is not an \<open>OSError\<close>.
\<close>

datatype exc =
    SocketTimeout
  | ConnectionAbortedError
  | BrokenPipeError
  | ConnectionResetError
  | FileNotFoundError
  | OSError
  | UnicodeDecodeError
  | InvalidDataError
  | AssertionError
  | AdbError
  | AttributeError
  | OtherException

fun is_OSError :: "exc \<Rightarrow> bool" where
  "is_OSError SocketTimeout = True"
| "is_OSError ConnectionAbortedError = True"
| "is_OSError BrokenPipeError = True"
| "is_OSError ConnectionResetError = True"
| "is_OSError FileNotFoundError = True"
| "is_OSError OSError = True"
| "is_OSError _ = False"

datatype 'a outcome = Returns 'a | Raises exc

datatype level = DEBUG | INFO | WARNING | ERROR

datatype payload = NoArgs | FrameArg ndarray

text \<open>
  What the client does to the world outside it, in the order it does it: the calls of the
  logger (the text is the message without the interpolated values), of the device
  transport, of the sockets, of the server process, of the decoder and of the subscribers.
  \<open>Published\<close> marks a call of \<open>_send_to_listeners\<close>, \<open>Invoked ev i args\<close> the call of the
  subscriber at position \<open>i\<close> of the list of \<open>ev\<close>.
\<close>

datatype effect =
    Log level string
  | Published ListenEvent payload
  | Invoked ListenEvent nat payload
  | Push_server
  | Bind_listen nat
  | Reverse string nat
  | Launch "string list"
  | Accept_video
  | Accept_control
  | Close_listening
  | Start_worker
  | Join_worker
  | Close_control
  | Close_video
  | Terminate
  | Wait_process
  | Shell_remove string
  | Parse bytes

text \<open>
  A subscriber is a callback: called with the arguments of the event it returns or raises
  an \<open>Exception\<close>. What it does may depend on everything that happened before the call. It
  is taken not to call the methods of the client itself.
\<close>

type_synonym listener = "effect list \<Rightarrow> payload \<Rightarrow> exc option"

text \<open>
  The handles the client owns. Closing a socket that is closed, and terminating and waiting
  on a process that has been waited for, do nothing in Python.
\<close>

datatype handle = Open | Closed
datatype proc = Running | Reaped
datatype worker = Alive | Finished

text \<open>
  What the peer sends on the video channel, as the successive calls of \<open>recv\<close> find it: a
  run of bytes that has arrived, a read that times out, a read that fails. When the list is
  used up the peer has closed the connection.
\<close>

datatype segment = Bytes bytes | Timed_out | Failed

text \<open>
  The fields of \<open>ScrcpyClient\<close>, and with them the two parts of the world its methods read
  and write: the data still to arrive on the video socket and the effects so far.
\<close>

record client =
  scid :: nat
  socket_name :: string
  listeners :: "ListenEvent \<Rightarrow> listener list"
  is_running :: bool
  last_frame :: "ndarray option"
  resolution :: "(nat \<times> nat) option"
  server_process :: "proc option"
  video_socket :: "handle option"
  control_socket :: "handle option"
  stream_thread :: "worker option"
  local_port :: "nat option"
  device_name :: ustr
  video_codec :: ustr
  custom_server_args :: "(string, string) dict"
  video_inbound :: "segment list"
  trace :: "effect list"

definition emit :: "effect \<Rightarrow> client \<Rightarrow> client" where
  "emit e c = c\<lparr>trace := trace c @ [e]\<rparr>"

definition log :: "level \<Rightarrow> string \<Rightarrow> client \<Rightarrow> client" where
  "log lvl msg c = emit (Log lvl msg) c"

text \<open>
  \<open>__init__\<close>: the server file must exist; the session identifier is the number
  \<open>random.randint\<close> draws.
\<close>

definition new_client :: "nat \<Rightarrow> (string, string) dict option \<Rightarrow> client" where
  "new_client drawn server_args =
     \<lparr>scid = drawn,
      socket_name = SOCKET_NAME_PREFIX @ ''_'' @ hex08_nat drawn,
      listeners = (\<lambda>ev. []),
      is_running = False,
      last_frame = None,
      resolution = None,
      server_process = None,
      video_socket = None,
      control_socket = None,
      stream_thread = None,
      local_port = None,
      device_name = ustr_of ''unknown'',
      video_codec = ustr_of ''h264'',
      custom_server_args = (case server_args of None \<Rightarrow> [] | Some d \<Rightarrow> d),
      video_inbound = [],
      trace = []\<rparr>"

definition init_client ::
  "bool \<Rightarrow> nat \<Rightarrow> (string, string) dict option \<Rightarrow> exc + client" where
  "init_client path_exists drawn server_args =
     (if \<not> path_exists then Inl FileNotFoundError
      else Inr (new_client drawn server_args))"

section \<open>Event dispatch\<close>


text \<open>
  \<open>_send_to_listeners\<close>: the loop over the subscribers of the event, each call inside
  \<open>try\<close> ... \<open>except Exception\<close>, which logs the error and goes on.
\<close>

fun call_listeners ::
  "ListenEvent \<Rightarrow> payload \<Rightarrow> nat \<Rightarrow> listener list \<Rightarrow> client \<Rightarrow> client" where
  "call_listeners ev args i [] c = c"
| "call_listeners ev args i (l # ls) c =
     (let c1 = emit (Invoked ev i args) c
      in call_listeners ev args (Suc i) ls
           (case l (trace c1) args of
              None \<Rightarrow> c1
            | Some e \<Rightarrow> log ERROR ''Error in listener for event'' c1))"

definition send_to_listeners :: "ListenEvent \<Rightarrow> payload \<Rightarrow> client \<Rightarrow> client" where
  "send_to_listeners ev args c =
     call_listeners ev args 0 (listeners c ev) (emit (Published ev args) c)"



section \<open>Stopping\<close>

text \<open>
  \<open>stop\<close>, statement by statement. A handle is tested for being set (\<open>if self._control_socket\<close>),
  the port for being set and not 0. The removal of the forward is a shell command of the
  device transport, which may raise; \<open>shell_raises\<close> is the exception it raises in this
  call, if any, and \<open>except Exception\<close> catches it. \<open>join\<close> returns once the worker has
  ended; \<open>stop\<close> is taken to be called from outside the worker.
\<close>

definition join_worker :: "client \<Rightarrow> client" where
  "join_worker c =
     (case stream_thread c of
        Some Alive \<Rightarrow> emit Join_worker (c\<lparr>stream_thread := Some Finished\<rparr>)
      | _ \<Rightarrow> c)"

definition close_control :: "client \<Rightarrow> client" where
  "close_control c =
     (case control_socket c of
        Some h \<Rightarrow> emit Close_control (c\<lparr>control_socket := Some Closed\<rparr>)
      | None \<Rightarrow> c)"

definition close_video :: "client \<Rightarrow> client" where
  "close_video c =
     (case video_socket c of
        Some h \<Rightarrow> emit Close_video (c\<lparr>video_socket := Some Closed\<rparr>)
      | None \<Rightarrow> c)"

definition terminate_server :: "client \<Rightarrow> client" where
  "terminate_server c =
     (case server_process c of
        Some p \<Rightarrow>
          log DEBUG ''Server process terminated.''
            (emit Wait_process (emit Terminate (c\<lparr>server_process := Some Reaped\<rparr>)))
      | None \<Rightarrow> c)"

definition port_set :: "client \<Rightarrow> bool" where
  "port_set c = (case local_port c of Some p \<Rightarrow> p \<noteq> 0 | None \<Rightarrow> False)"

definition remove_forward :: "exc option \<Rightarrow> client \<Rightarrow> client" where
  "remove_forward shell_raises c =
     (if port_set c then
        (let c1 = emit (Shell_remove (''localabstract:'' @ socket_name c)) c
         in case shell_raises of
              None \<Rightarrow> log DEBUG ''Reverse tunnel removed.'' c1
            | Some x \<Rightarrow> log WARNING ''Failed to remove reverse tunnel'' c1)
      else c)"

definition stop :: "exc option \<Rightarrow> client \<Rightarrow> client" where
  "stop shell_raises c =
     (let c1 = log INFO ''Stopping client...'' c;
          c2 = c1\<lparr>is_running := False\<rparr>;
          c3 = join_worker c2;
          c4 = close_control c3;
          c5 = close_video c4;
          c6 = terminate_server c5;
          c7 = remove_forward shell_raises c6;
          c8 = c7\<lparr>resolution := None\<rparr>;
          c9 = c8\<lparr>last_frame := None\<rparr>
      in log INFO ''Client stopped.'' c9)"

text \<open>The client without the record of its effects.\<close>

definition client_view :: "client \<Rightarrow> client" where
  "client_view c = c\<lparr>trace := []\<rparr>"

section \<open>Bytes and text\<close>

text \<open>\<open>int.from_bytes(bs, byteorder="big")\<close> and the slice \<open>xs[a:b]\<close> for \<open>a \<le> b\<close>.\<close>

definition from_bytes_big :: "bytes \<Rightarrow> nat" where
  "from_bytes_big bs = foldl (\<lambda>acc b. acc * 256 + unat b) 0 bs"

definition slice :: "nat \<Rightarrow> nat \<Rightarrow> 'a list \<Rightarrow> 'a list" where
  "slice a b xs = take (b - a) (drop a xs)"

text \<open>
  \<open>bytes.decode("utf-8")\<close> with the default error handling \<open>strict\<close>: the code points of a
  well-formed sequence, and \<open>UnicodeDecodeError\<close> (here \<open>None\<close>) on a byte that cannot start a
  character, a missing or wrong continuation byte, an overlong form, a surrogate or a value
  above \<open>0x10FFFF\<close>.
\<close>

definition cont :: "nat \<Rightarrow> bool" where
  "cont b = (128 \<le> b \<and> b < 192)"

fun utf8 :: "nat list \<Rightarrow> ustr option" where
  "utf8 [] = Some []"
| "utf8 (b0 # r) =
     (if b0 < 128 then map_option ((#) b0) (utf8 r)
      else if 194 \<le> b0 \<and> b0 < 224 then
        (case r of
           b1 # r1 \<Rightarrow>
             if cont b1 then map_option ((#) ((b0 - 192) * 64 + (b1 - 128))) (utf8 r1)
             else None
         | _ \<Rightarrow> None)
      else if 224 \<le> b0 \<and> b0 < 240 then
        (case r of
           b1 # b2 # r2 \<Rightarrow>
             if cont b1 \<and> cont b2 \<and> (b0 = 224 \<longrightarrow> 160 \<le> b1) \<and> (b0 = 237 \<longrightarrow> b1 < 160)
             then map_option ((#) ((b0 - 224) * 4096 + (b1 - 128) * 64 + (b2 - 128))) (utf8 r2)
             else None
         | _ \<Rightarrow> None)
      else if 240 \<le> b0 \<and> b0 < 245 then
        (case r of
           b1 # b2 # b3 # r3 \<Rightarrow>
             if cont b1 \<and> cont b2 \<and> cont b3 \<and> (b0 = 240 \<longrightarrow> 144 \<le> b1)
                \<and> (b0 = 244 \<longrightarrow> b1 < 144)
             then map_option
                    ((#) ((b0 - 240) * 262144 + (b1 - 128) * 4096 + (b2 - 128) * 64 + (b3 - 128)))
                    (utf8 r3)
             else None
         | _ \<Rightarrow> None)
      else None)"

definition decode_utf8 :: "bytes \<Rightarrow> ustr option" where
  "decode_utf8 bs = utf8 (map unat bs)"

text \<open>\<open>s.rstrip("\x00")\<close>.\<close>

definition rstrip_nul :: "ustr \<Rightarrow> ustr" where
  "rstrip_nul s = rev (dropWhile (\<lambda>c. c = 0) (rev s))"

text \<open>
  \<open>s.lower()\<close>. On the letters \<open>A\<close> to \<open>Z\<close> it adds 32. On a code point above 127 Python
  follows the Unicode tables, which give no result with \<open>h\<close>, \<open>2\<close>, \<open>6\<close> or \<open>4\<close> in it; the
  program only compares the result with \<open>"h264"\<close>, and a string with such a code point
  differs from it before and after, so these code points are left as they are.
\<close>

definition lower_cp :: "nat \<Rightarrow> nat" where
  "lower_cp c = (if 65 \<le> c \<and> c \<le> 90 then c + 32 else c)"

definition lower :: "ustr \<Rightarrow> ustr" where
  "lower s = map lower_cp s"

section \<open>Reading from the video socket\<close>

datatype recv_result = Got bytes | Recv_raises exc

text \<open>
  \<open>sock.recv(n)\<close> on the data to come: at most \<open>n\<close> of the bytes that have arrived, the
  rest staying for the next call; \<open>b""\<close> once the peer has closed.
\<close>

fun recv :: "nat \<Rightarrow> segment list \<Rightarrow> recv_result \<times> segment list" where
  "recv n [] = (Got [], [])"
| "recv n (Timed_out # r) = (Recv_raises SocketTimeout, r)"
| "recv n (Failed # r) = (Recv_raises OSError, r)"
| "recv n (Bytes bs # r) =
     (if length bs \<le> n then (Got bs, r) else (Got (take n bs), Bytes (drop n bs) # r))"

text \<open>
  A call on the video socket of the client: a closed socket raises \<open>OSError\<close>, and there is
  nothing to call when the field is \<open>None\<close>.
\<close>

definition sock_recv :: "nat \<Rightarrow> client \<Rightarrow> recv_result \<times> client" where
  "sock_recv n c =
     (case video_socket c of
        None \<Rightarrow> (Recv_raises AttributeError, c)
      | Some Closed \<Rightarrow> (Recv_raises OSError, c)
      | Some Open \<Rightarrow>
          (let (r, rest) = recv n (video_inbound c) in (r, c\<lparr>video_inbound := rest\<rparr>)))"

text \<open>\<open>_recv_all\<close>: the loop, with the bytes collected so far.\<close>

function recv_loop :: "nat \<Rightarrow> bytes \<Rightarrow> client \<Rightarrow> bytes outcome \<times> client" where
  "recv_loop n data c =
     (if length data < n then
        (case sock_recv (n - length data) c of
           (Recv_raises e, c') \<Rightarrow> (Raises e, c')
         | (Got packet, c') \<Rightarrow>
             if packet = [] then (Raises ConnectionAbortedError, c')
             else recv_loop n (data @ packet) c')
      else (Returns data, c))"
  by pat_completeness auto
termination
  by (relation "measure (\<lambda>(n, data, c). n - length data)") (auto simp: neq_Nil_conv)

declare recv_loop.simps [simp del]

definition recv_all :: "nat \<Rightarrow> client \<Rightarrow> bytes outcome \<times> client" where
  "recv_all n c = recv_loop n [] c"

section \<open>Starting: the server file, the tunnel, the handshake\<close>

text \<open>
  What the collaborators of the client answer during one \<open>start\<close>: the device transport,
  the \<open>adb\<close> binary, the operating system and the peer.
\<close>

datatype stat_outcome = Stat nat nat | Stat_not_found | Stat_failed
datatype accept_outcome = Accepted | Accept_timeout | Accept_failed

record env =
  serial :: "string option"
  adb_path :: string
  remote_stat :: stat_outcome
  local_stat :: stat_outcome
  push_raises :: bool
  ephemeral_port :: nat
  reverse_raises :: bool
  popen_raises :: "exc option"
  video_accept :: accept_outcome
  control_accept :: accept_outcome
  inbound :: "segment list"
  shell_raises :: "exc option"

definition do_push :: "env \<Rightarrow> client \<Rightarrow> unit outcome \<times> client" where
  "do_push e c =
     (let c1 = log DEBUG ''Pushing server to /data/local/tmp/scrcpy-server.jar...'' c;
          c2 = emit Push_server c1
      in if push_raises e
         then (Raises OSError, log ERROR ''Failed to push server'' c2)
         else (Returns (), log DEBUG ''Server pushed successfully.'' c2))"

text \<open>
  \<open>_push_server\<close>. A stat is a size and a modification time in seconds; the remote one is
  asked first, and either may raise \<open>FileNotFoundError\<close> or something else.
\<close>

definition push_server :: "env \<Rightarrow> client \<Rightarrow> unit outcome \<times> client" where
  "push_server e c =
     (let c1 = log DEBUG ''Checking server on /data/local/tmp/scrcpy-server.jar...'' c;
          not_found = log DEBUG ''Server not found on device.'' c1;
          stat_failed = log WARNING ''Failed to stat remote server. Will try to push anyway.'' c1
      in case remote_stat e of
           Stat_not_found \<Rightarrow> do_push e not_found
         | Stat_failed \<Rightarrow> do_push e stat_failed
         | Stat rsize rmtime \<Rightarrow>
             (case local_stat e of
                Stat_not_found \<Rightarrow> do_push e not_found
              | Stat_failed \<Rightarrow> do_push e stat_failed
              | Stat lsize lmtime \<Rightarrow>
                  if rsize = lsize \<and> rmtime = lmtime
                  then (Returns (), log DEBUG ''Server is already up-to-date.'' c1)
                  else do_push e c1))"

text \<open>\<open>_start_server\<close>.\<close>

definition start_server :: "env \<Rightarrow> client \<Rightarrow> unit outcome \<times> client" where
  "start_server e c =
     (case serial e of
        None \<Rightarrow> (Raises AssertionError, c)
      | Some ser \<Rightarrow>
          (let c1 = log DEBUG ''Starting server...'' c;
               server_args = get_server_args (scid c1) (custom_server_args c1);
               command = [''CLASSPATH='' @ SERVER_REMOTE_PATH, ''app_process'', ''/'',
                          ''com.genymobile.scrcpy.Server''] @ server_args;
               adb_command = [adb_path e, ''-s'', ser, ''shell''] @ command;
               c2 = emit (Launch adb_command) c1
           in case popen_raises e of
                Some x \<Rightarrow> (Raises x, c2)
              | None \<Rightarrow>
                  (Returns (),
                   log INFO ''Server process started with PID''
                     (c2\<lparr>server_process := Some Running\<rparr>))))"

text \<open>
  \<open>server_socket.accept()\<close>, with the timeout of 30 seconds the program sets: the connection,
  \<open>socket.timeout\<close>, or another socket error.
\<close>

definition accept_raises :: "accept_outcome \<Rightarrow> exc option" where
  "accept_raises a =
     (case a of Accepted \<Rightarrow> None | Accept_timeout \<Rightarrow> Some SocketTimeout
      | Accept_failed \<Rightarrow> Some OSError)"

text \<open>
  The body of the \<open>try\<close> of \<open>_connect_sockets\<close>, in three parts: the two accepts, the reading
  of the metadata up to the check of the resolution, and the whole.
\<close>

definition accept_sockets :: "env \<Rightarrow> client \<Rightarrow> unit outcome \<times> client" where
  "accept_sockets e c =
     (let c1 = log DEBUG ''Waiting for video socket connection...'' c
      in case accept_raises (video_accept e) of
           Some x \<Rightarrow> (Raises x, c1)
         | None \<Rightarrow>
             (let c2 = emit Accept_video
                         (c1\<lparr>video_socket := Some Open, video_inbound := inbound e\<rparr>);
                  c3 = log DEBUG ''Video socket connected.'' c2;
                  c4 = log DEBUG ''Waiting for control socket connection...'' c3
              in case accept_raises (control_accept e) of
                   Some x \<Rightarrow> (Raises x, c4)
                 | None \<Rightarrow>
                     (Returns (),
                      log DEBUG ''Control socket connected.''
                        (emit Accept_control (c4\<lparr>control_socket := Some Open\<rparr>)))))"

definition read_metadata :: "client \<Rightarrow> bool outcome \<times> client" where
  "read_metadata c =
     (case recv_all DEVICE_NAME_FIELD_LENGTH c of
        (Raises x, c1) \<Rightarrow> (Raises x, c1)
      | (Returns device_name_bytes, c1) \<Rightarrow>
     (case decode_utf8 device_name_bytes of
        None \<Rightarrow> (Raises UnicodeDecodeError, c1)
      | Some name \<Rightarrow>
     (let c2 = log DEBUG ''Device name'' (c1\<lparr>device_name := rstrip_nul name\<rparr>)
      in case recv_all CODEC_ID_FIELD_LENGTH c2 of
        (Raises x, c3) \<Rightarrow> (Raises x, c3)
      | (Returns codec_id_bytes, c3) \<Rightarrow>
     (case decode_utf8 codec_id_bytes of
        None \<Rightarrow> (Raises UnicodeDecodeError, c3)
      | Some codec \<Rightarrow>
     (let c4 = log DEBUG ''Video Codec'' (c3\<lparr>video_codec := codec\<rparr>)
      in if lower (video_codec c4) \<noteq> ustr_of ''h264''
         then (Returns False, log ERROR ''Unsupported codec. Only h264 is supported.'' c4)
         else
     (case recv_all (fst VIDEO_HEADER_FIELD_LENGTH) c4 of
        (Raises x, c5) \<Rightarrow> (Raises x, c5)
      | (Returns width_bytes, c5) \<Rightarrow>
     (case recv_all (snd VIDEO_HEADER_FIELD_LENGTH) c5 of
        (Raises x, c6) \<Rightarrow> (Raises x, c6)
      | (Returns height_bytes, c6) \<Rightarrow>
     (let width = from_bytes_big width_bytes;
          height = from_bytes_big height_bytes;
          c7 = log DEBUG ''Resolution'' (c6\<lparr>resolution := Some (width, height)\<rparr>)
      in if resolution c7 = Some (0, 0)
         then (Returns False, log ERROR ''Got 0x0 resolution. Is the device screen on?'' c7)
         else (Returns True, c7)))))))))"

definition try_connect :: "env \<Rightarrow> client \<Rightarrow> bool outcome \<times> client" where
  "try_connect e c =
     (case accept_sockets e c of
        (Raises x, c1) \<Rightarrow> (Raises x, c1)
      | (Returns u, c1) \<Rightarrow>
          (case read_metadata c1 of
             (Returns True, c2) \<Rightarrow> (Returns True, send_to_listeners INIT NoArgs c2)
           | r \<Rightarrow> r))"

text \<open>
  The handlers of that \<open>try\<close>: \<open>socket.timeout\<close> first, then the socket errors, both
  returning \<open>False\<close>; any other exception goes on to the caller.
\<close>

definition connect_handlers :: "bool outcome \<times> client \<Rightarrow> bool outcome \<times> client" where
  "connect_handlers r =
     (case r of
        (Raises x, c) \<Rightarrow>
          if x = SocketTimeout
          then (Returns False, log ERROR ''Socket connection timed out. Is the server running?'' c)
          else if is_OSError x
          then (Returns False, log ERROR ''Failed to connect sockets'' c)
          else (Raises x, c)
      | _ \<Rightarrow> r)"

text \<open>
  \<open>_connect_sockets\<close>: the listening socket, the reverse tunnel and the server come before
  the \<open>try\<close>; the \<open>finally\<close> closes the listening socket.
\<close>

definition connect_sockets :: "env \<Rightarrow> client \<Rightarrow> bool outcome \<times> client" where
  "connect_sockets e c =
     (let c1 = log DEBUG ''Setting up reverse tunnel...'' c;
          c2 = emit (Bind_listen (ephemeral_port e)) (c1\<lparr>local_port := Some (ephemeral_port e)\<rparr>);
          c3 = emit (Reverse (''localabstract:'' @ socket_name c2) (ephemeral_port e)) c2
      in if reverse_raises e then (Raises AdbError, c3)
         else
           (case start_server e c3 of
              (Raises x, c4) \<Rightarrow> (Raises x, c4)
            | (Returns u, c4) \<Rightarrow>
                (let (r, c5) = connect_handlers (try_connect e c4)
                 in (r, emit Close_listening c5))))"

section \<open>The stream loop\<close>

text \<open>
  The frame decoder is a collaborator. \<open>codec.parse(data)\<close> raises or returns packets, and
  \<open>codec.decode(packet)\<close> raises or returns frames; what a decoder answers depends on all
  the payloads it has been given. So a decoder maps the payloads parsed so far, the last one
  being the one parsed now, to what \<open>parse\<close> does and, for each packet it returns, to what
  \<open>decode\<close> does with it. \<open>av.CodecContext.create(name, "r")\<close> gives the decoder of a codec
  name, or raises.
\<close>

datatype decode_step = Frames "ndarray list" | Decode_raises exc
datatype parse_result = Packets "decode_step list" | Parse_raises exc

type_synonym decoder = "bytes list \<Rightarrow> parse_result"
type_synonym av = "ustr \<Rightarrow> decoder option"

text \<open>The two \<open>for\<close> loops: over the frames of a packet, and over the packets.\<close>

fun deliver_frames :: "ndarray list \<Rightarrow> client \<Rightarrow> client" where
  "deliver_frames [] c = c"
| "deliver_frames (f # fs) c =
     deliver_frames fs (send_to_listeners FRAME (FrameArg f) (c\<lparr>last_frame := Some f\<rparr>))"

fun decode_packets :: "decode_step list \<Rightarrow> client \<Rightarrow> unit outcome \<times> client" where
  "decode_packets [] c = (Returns (), c)"
| "decode_packets (Decode_raises x # ps) c = (Raises x, c)"
| "decode_packets (Frames fs # ps) c = decode_packets ps (deliver_frames fs c)"

text \<open>
  The inner \<open>while self.is_running\<close> loop, with the local variables it uses: the accumulator
  \<open>data_buffer\<close> and the payloads given to the decoder. It ends by a \<open>break\<close> or an exception.
\<close>

function extract_loop ::
  "decoder \<Rightarrow> client \<Rightarrow> bytes \<Rightarrow> bytes list \<Rightarrow> unit outcome \<times> client \<times> bytes \<times> bytes list" where
  "extract_loop dec c data_buffer hist =
     (if \<not> is_running c then (Returns (), c, data_buffer, hist)
      else if length data_buffer < 12 then (Returns (), c, data_buffer, hist)
      else
        (let packet_size = from_bytes_big (slice 8 12 data_buffer)
         in if length data_buffer < 12 + packet_size then (Returns (), c, data_buffer, hist)
            else
              (let packet_data = slice 12 (12 + packet_size) data_buffer;
                   rest = drop (12 + packet_size) data_buffer;
                   hist' = hist @ [packet_data];
                   c1 = emit (Parse packet_data) c
               in case dec hist' of
                    Parse_raises x \<Rightarrow> (Raises x, c1, rest, hist')
                  | Packets ps \<Rightarrow>
                      (case decode_packets ps c1 of
                         (Raises x, c2) \<Rightarrow> (Raises x, c2, rest, hist')
                       | (Returns u, c2) \<Rightarrow> extract_loop dec c2 rest hist'))))"
  by pat_completeness auto
termination
  by (relation "measure (\<lambda>(dec, c, data_buffer, hist). length data_buffer)") auto

declare extract_loop.simps [simp del]

text \<open>
  The \<open>except\<close> clauses of the outer \<open>try\<close>: a socket error ends the loop, a malformed
  payload is skipped, any other exception ends the loop.
\<close>

datatype loop_ctl = Break | Continue

definition loop_handlers :: "exc \<Rightarrow> client \<Rightarrow> loop_ctl \<times> client" where
  "loop_handlers x c =
     (if is_OSError x
      then (Break, if is_running c then log WARNING ''Socket error, stopping loop'' c else c)
      else if x = InvalidDataError
      then (Continue, log WARNING ''AV decoding error (skipping packet)'' c)
      else (Break, if is_running c then log ERROR ''Unexpected stream loop error'' c else c))"

text \<open>The data to come shrinks with every read that does not end the loop.\<close>

fun seg_size :: "segment \<Rightarrow> nat" where
  "seg_size (Bytes bs) = Suc (length bs)"
| "seg_size Timed_out = 1"
| "seg_size Failed = 1"

definition to_come :: "client \<Rightarrow> nat" where
  "to_come c = sum_list (map seg_size (video_inbound c))"

lemma video_inbound_emit [simp]: "video_inbound (emit e c) = video_inbound c"
  by (simp add: emit_def)

lemma video_inbound_log [simp]: "video_inbound (log l m c) = video_inbound c"
  by (simp add: log_def)

lemma video_inbound_call_listeners [simp]:
  "video_inbound (call_listeners ev args i ls c) = video_inbound c"
  by (induction ls arbitrary: i c) (auto simp: Let_def split: option.splits)

lemma video_inbound_send [simp]:
  "video_inbound (send_to_listeners ev args c) = video_inbound c"
  by (simp add: send_to_listeners_def)

lemma video_inbound_deliver [simp]: "video_inbound (deliver_frames fs c) = video_inbound c"
  by (induction fs arbitrary: c) auto

lemma video_inbound_decode:
  "decode_packets ps c = (r, c') \<Longrightarrow> video_inbound c' = video_inbound c"
  by (induction ps c rule: decode_packets.induct) auto

lemma video_inbound_extract:
  "extract_loop dec c buf hist = (r, c', buf', hist') \<Longrightarrow> video_inbound c' = video_inbound c"
proof (induction dec c buf hist arbitrary: r c' buf' hist' rule: extract_loop.induct)
  case (1 dec c data_buffer hist)
  let ?ps = "from_bytes_big (slice 8 12 data_buffer)"
  let ?pd = "slice 12 (12 + ?ps) data_buffer"
  let ?rest = "drop (12 + ?ps) data_buffer"
  let ?h = "hist @ [?pd]"
  let ?c1 = "emit (Parse ?pd) c"
  show ?case
  proof (cases "is_running c \<and> \<not> length data_buffer < 12 \<and> \<not> length data_buffer < 12 + ?ps")
    case False
    with "1.prems" show ?thesis
      by (subst (asm) extract_loop.simps) (auto simp: Let_def split: if_splits)
  next
    case True
    show ?thesis
    proof (cases "dec ?h")
      case (Parse_raises x)
      with True "1.prems" show ?thesis
        by (subst (asm) extract_loop.simps) (auto simp: Let_def)
    next
      case (Packets ps)
      obtain r2 c2 where d: "decode_packets ps ?c1 = (r2, c2)" by (cases "decode_packets ps ?c1")
      then have v: "video_inbound c2 = video_inbound c"
        using video_inbound_decode [OF d] by simp
      show ?thesis
      proof (cases r2)
        case (Raises x)
        with True Packets d "1.prems" v show ?thesis
          by (subst (asm) extract_loop.simps) (auto simp: Let_def)
      next
        case (Returns u)
        with True Packets d "1.prems" have "extract_loop dec c2 ?rest ?h = (r, c', buf', hist')"
          by (subst (asm) extract_loop.simps) (simp add: Let_def)
        then have "video_inbound c' = video_inbound c2"
          using "1.IH" [OF _ _ refl _ refl refl refl refl Packets d [symmetric] _] True Returns
          by auto
        with v show ?thesis by simp
      qed
    qed
  qed
qed

lemma video_inbound_handlers:
  "loop_handlers x c = (k, c') \<Longrightarrow> video_inbound c' = video_inbound c"
  by (auto simp: loop_handlers_def split: if_splits)

lemma recv_raises_shrinks:
  "recv n segs = (Recv_raises x, rest) \<Longrightarrow>
     sum_list (map seg_size rest) < sum_list (map seg_size segs)"
  by (induction n segs rule: recv.induct) (auto split: if_splits)

lemma recv_got_shrinks:
  "recv n segs = (Got chunk, rest) \<Longrightarrow> chunk \<noteq> [] \<Longrightarrow> 0 < n \<Longrightarrow>
     sum_list (map seg_size rest) < sum_list (map seg_size segs)"
  by (induction n segs rule: recv.induct) (auto split: if_splits)

lemma sock_recv_timeout_shrinks:
  "sock_recv n c = (Recv_raises SocketTimeout, c') \<Longrightarrow> to_come c' < to_come c"
  by (auto simp: sock_recv_def to_come_def split: option.splits handle.splits prod.splits
           dest: recv_raises_shrinks)

lemma sock_recv_got_shrinks:
  "sock_recv n c = (Got chunk, c') \<Longrightarrow> chunk \<noteq> [] \<Longrightarrow> 0 < n \<Longrightarrow> to_come c' < to_come c"
  by (auto simp: sock_recv_def to_come_def split: option.splits handle.splits prod.splits
           dest: recv_got_shrinks)

lemma recv_raises_kind: "recv n segs = (Recv_raises x, rest) \<Longrightarrow> is_OSError x"
  by (induction n segs rule: recv.induct) (auto split: if_splits)

lemma sock_recv_raises_break:
  "sock_recv n c = (Recv_raises x, c') \<Longrightarrow> fst (loop_handlers x c'') = Break"
  by (auto simp: sock_recv_def loop_handlers_def
           split: option.splits handle.splits prod.splits dest: recv_raises_kind)

text \<open>
  The outer \<open>while self.is_running\<close> loop. \<open>settimeout(0.1)\<close> and \<open>recv(0x10000)\<close> are one
  call on the socket; \<open>socket.timeout\<close> is caught around it and the loop goes on, any other
  exception of it reaches the outer handlers, as those of the extraction do.
\<close>

function stream_iter ::
  "decoder \<Rightarrow> client \<Rightarrow> bytes \<Rightarrow> bytes list \<Rightarrow> client \<times> bytes \<times> bytes list" where
  "stream_iter dec c data_buffer hist =
     (if \<not> is_running c then (c, data_buffer, hist)
      else
        (case sock_recv 65536 c of
           (Recv_raises x, c1) \<Rightarrow>
             if x = SocketTimeout then stream_iter dec c1 data_buffer hist
             else
               (case loop_handlers x c1 of
                  (Continue, c2) \<Rightarrow> stream_iter dec c2 data_buffer hist
                | (Break, c2) \<Rightarrow> (c2, data_buffer, hist))
         | (Got chunk, c1) \<Rightarrow>
             if chunk = []
             then (log DEBUG ''Video stream ended (socket closed).'' c1, data_buffer, hist)
             else
               (case extract_loop dec c1 (data_buffer @ chunk) hist of
                  (Returns u, c2, buf2, hist2) \<Rightarrow> stream_iter dec c2 buf2 hist2
                | (Raises x, c2, buf2, hist2) \<Rightarrow>
                    (case loop_handlers x c2 of
                       (Continue, c3) \<Rightarrow> stream_iter dec c3 buf2 hist2
                     | (Break, c3) \<Rightarrow> (c3, buf2, hist2)))))"
  by pat_completeness auto
termination
proof (relation "measure (\<lambda>(dec, c, data_buffer, hist). to_come c)", goal_cases)
  case 1
  show ?case by simp
next
  case (2 dec c data_buffer hist x y x1 xa ya x1a xb yb xc yc)
  from 2 have "sock_recv 65536 c = (Got x1, y)" by simp
  with 2 have a: "to_come y < to_come c"
    by (intro sock_recv_got_shrinks [of 65536 c x1 y]) auto
  from 2 have "extract_loop dec y (data_buffer @ x1) hist = (xa, xb, xc, yc)" by simp
  then have "video_inbound xb = video_inbound y" by (rule video_inbound_extract)
  with a show ?case by (simp add: to_come_def)
next
  case (3 dec c data_buffer hist x y x1 xa ya x2 xb yb xc yc xd yd)
  from 3 have "sock_recv 65536 c = (Got x1, y)" by simp
  with 3 have a: "to_come y < to_come c"
    by (intro sock_recv_got_shrinks [of 65536 c x1 y]) auto
  from 3 have "extract_loop dec y (data_buffer @ x1) hist = (xa, xb, xc, yc)" by simp
  then have b: "video_inbound xb = video_inbound y" by (rule video_inbound_extract)
  from 3 have "loop_handlers x2 xb = (xd, yd)" by simp
  then have "video_inbound yd = video_inbound xb" by (rule video_inbound_handlers)
  with a b show ?case by (simp add: to_come_def)
next
  case (4 dec c data_buffer hist x y x2)
  from 4 have "sock_recv 65536 c = (Recv_raises SocketTimeout, y)" by simp
  then have "to_come y < to_come c" by (rule sock_recv_timeout_shrinks)
  then show ?case by simp
next
  case (5 dec c data_buffer hist x y x2 xa ya)
  from 5 have "sock_recv 65536 c = (Recv_raises x2, y)" by simp
  then have "fst (loop_handlers x2 y) = Break" by (rule sock_recv_raises_break)
  with 5 have False by (cases "loop_handlers x2 y") auto
  then show ?case ..
qed

declare stream_iter.simps [simp del]

text \<open>\<open>_stream_loop\<close>.\<close>

definition stream_loop :: "av \<Rightarrow> client \<Rightarrow> unit outcome \<times> client" where
  "stream_loop lib c =
     (case video_socket c of
        None \<Rightarrow> (Raises AssertionError, c)
      | Some h \<Rightarrow>
          (let c1 = log DEBUG ''Starting video stream loop...'' c
           in case lib (lower (video_codec c1)) of
                None \<Rightarrow> (Raises OtherException, c1)
              | Some codec \<Rightarrow>
                  (let (c2, data_buffer, hist) = stream_iter codec c1 [] [];
                       c3 = c2\<lparr>is_running := False\<rparr>
                   in (Returns (), log INFO ''Stream loop stopped.'' c3))))"

section \<open>Starting\<close>

text \<open>\<open>start\<close>.\<close>

definition start :: "env \<Rightarrow> av \<Rightarrow> bool \<Rightarrow> client \<Rightarrow> unit outcome \<times> client" where
  "start e lib threaded c =
     (if is_running c then (Returns (), log WARNING ''Client is already running.'' c)
      else
        (case push_server e c of
           (Raises x, c1) \<Rightarrow> (Raises x, c1)
         | (Returns u, c1) \<Rightarrow>
             (case connect_sockets e c1 of
                (Raises x, c2) \<Rightarrow> (Raises x, c2)
              | (Returns ok, c2) \<Rightarrow>
                  if \<not> ok then (Returns (), stop (shell_raises e) c2)
                  else
                    (let c3 = c2\<lparr>is_running := True\<rparr>
                     in if threaded
                        then (Returns (), emit Start_worker (c3\<lparr>stream_thread := Some Alive\<rparr>))
                        else stream_loop lib c3))))"

text \<open>
  The worker that \<open>start\<close> creates runs \<open>_stream_loop\<close> and ends with it, also when the loop
  raises. A session is one \<open>start\<close> and, after it, the run of the worker to its end.
\<close>

definition run_worker :: "av \<Rightarrow> client \<Rightarrow> client" where
  "run_worker lib c =
     (case stream_thread c of
        Some Alive \<Rightarrow> (snd (stream_loop lib c))\<lparr>stream_thread := Some Finished\<rparr>
      | _ \<Rightarrow> c)"

definition session :: "env \<Rightarrow> av \<Rightarrow> bool \<Rightarrow> client \<Rightarrow> unit outcome \<times> client" where
  "session e lib threaded c =
     (let (r, c1) = start e lib threaded c
      in (r, if threaded then run_worker lib c1 else c1))"

section \<open>Inputs for the examples\<close>

text \<open>
  The bytes a list of reads delivers, and the reads that go on: data that has arrived, or a
  timeout. A length of the wire format: four bytes, the most significant first.
\<close>

fun seg_bytes :: "segment \<Rightarrow> bytes" where
  "seg_bytes (Bytes bs) = bs"
| "seg_bytes Timed_out = []"
| "seg_bytes Failed = []"

fun arrives :: "segment \<Rightarrow> bool" where
  "arrives (Bytes bs) = (bs \<noteq> [])"
| "arrives Timed_out = True"
| "arrives Failed = False"

definition be32 :: "nat \<Rightarrow> bytes" where
  "be32 n = [of_nat (n div 16777216), of_nat (n div 65536), of_nat (n div 256), of_nat n]"

text \<open>
  A running client whose peer sends one packet with the payload \<open>7, 8\<close> in three pieces
  around a timeout, and a decoder that returns one packet of one frame for each payload.
\<close>

definition demo_streaming :: client where
  "demo_streaming =
     (new_client 6699 None)
       \<lparr>is_running := True, video_socket := Some Open,
        video_inbound := [Bytes [0, 0, 0, 0, 0], Timed_out, Bytes [0, 0, 0, 0, 0, 0, 2, 7],
                          Bytes [8]]\<rparr>"

definition demo_decoder :: decoder where
  "demo_decoder hist = Packets [Frames [[1, 2, 3]]]"

section \<open>Observations on a run\<close>

text \<open>
  The events published among a list of effects, in order; the events of a list of frames;
  and the relation of a client to a later one whose record of effects has grown by effects
  that publish the events \<open>ps\<close>.
\<close>

fun published :: "effect list \<Rightarrow> (ListenEvent \<times> payload) list" where
  "published [] = []"
| "published (Published ev args # t) = (ev, args) # published t"
| "published (e # t) = published t"

definition frame_events :: "ndarray list \<Rightarrow> (ListenEvent \<times> payload) list" where
  "frame_events fs = map (\<lambda>f. (FRAME, FrameArg f)) fs"

definition grows :: "client \<Rightarrow> client \<Rightarrow> (ListenEvent \<times> payload) list \<Rightarrow> bool" where
  "grows c c' ps = (\<exists>t. trace c' = trace c @ t \<and> published t = ps)"

text \<open>
  A handshake that succeeded: the server file was in place or pushed, \<open>_connect_sockets\<close>
  returned \<open>True\<close>, and the client then holds a supported codec and a resolution other than
  \<open>(0, 0)\<close>.
\<close>

definition metadata_ok :: "client \<Rightarrow> bool" where
  "metadata_ok c =
     (lower (video_codec c) = ustr_of ''h264''
      \<and> (\<exists>w h. resolution c = Some (w, h) \<and> (w, h) \<noteq> (0, 0)))"

definition handshake_ok :: "env \<Rightarrow> client \<Rightarrow> bool" where
  "handshake_ok e c =
     (\<exists>c1 c2. push_server e c = (Returns (), c1)
        \<and> connect_sockets e c1 = (Returns True, c2) \<and> metadata_ok c2)"

definition same_handles :: "client \<Rightarrow> client \<Rightarrow> bool" where
  "same_handles c c' =
     (video_socket c' = video_socket c \<and> control_socket c' = control_socket c
      \<and> server_process c' = server_process c \<and> is_running c' = is_running c)"

definition first_bytes :: "client \<Rightarrow> bytes" where
  "first_bytes c = (case video_inbound c of Bytes bs # r \<Rightarrow> bs | _ \<Rightarrow> [])"

text \<open>
  A device whose server file is up to date and which connects both sockets, sending the
  given pieces on the video channel; a library with one decoder for every codec name; the
  name field \<open>DEVICEXYZ\<close> padded with NUL to 64 bytes; and a name field of 21 characters of
  three bytes each, cut after the first byte of the next character.
\<close>

definition demo_name :: bytes where
  "demo_name = [68, 69, 86, 73, 67, 69, 88, 89, 90, 0, 0, 0, 0, 0, 0, 0, 0, 0, 0, 0, 0, 0, 0, 0, 0, 0, 0, 0, 0, 0, 0, 0, 0, 0, 0, 0, 0, 0, 0, 0, 0, 0, 0, 0, 0, 0, 0, 0, 0, 0, 0, 0, 0, 0, 0, 0, 0, 0, 0, 0, 0, 0, 0, 0]"

definition cjk_name :: bytes where
  "cjk_name = [232, 174, 190, 232, 174, 190, 232, 174, 190, 232, 174, 190, 232, 174, 190, 232, 174, 190, 232, 174, 190, 232, 174, 190, 232, 174, 190, 232, 174, 190, 232, 174, 190, 232, 174, 190, 232, 174, 190, 232, 174, 190, 232, 174, 190, 232, 174, 190, 232, 174, 190, 232, 174, 190, 232, 174, 190, 232, 174, 190, 232, 174, 190, 232]"

definition demo_env :: "bytes list \<Rightarrow> env" where
  "demo_env chunks =
     \<lparr>serial = Some ''emulator-5554'', adb_path = ''adb'',
      remote_stat = Stat 90112 1700000000, local_stat = Stat 90112 1700000000,
      push_raises = False, ephemeral_port = 40123, reverse_raises = False,
      popen_raises = None, video_accept = Accepted, control_accept = Accepted,
      inbound = map Bytes chunks, shell_raises = None\<rparr>"

definition demo_av :: av where
  "demo_av codec_name = Some demo_decoder"

section \<open>Properties of the server arguments\<close>

lemma str_nat_bit_rate: "str_nat DEFAULT_BIT_RATE = ''8000000''"
  by (simp add: str_nat_def DEFAULT_BIT_RATE_def digits.simps digit_char_def)

lemma str_nat_max_fps: "str_nat DEFAULT_MAX_FPS = ''30''"
  by (simp add: str_nat_def DEFAULT_MAX_FPS_def digits.simps digit_char_def)







lemma foldl_append_tokens: "foldl (\<lambda>acc kv. acc @ [f kv]) acc d = acc @ map f d"
  by (induction d arbitrary: acc) auto

lemma get_server_args_eq:
  "get_server_args scid_v custom =
     SERVER_VERSION # (''scid='' @ hex_nat scid_v) # map arg_token (dict_or predefined custom)"
  by (simp add: get_server_args_def foldl_append_tokens)




lemma get_server_args_example:
  "get_server_args 6699 [(''max_fps'', ''60''), (''video_codec'', ''h264'')] =
     [''3.3.3'', ''scid=1a2b'', ''log_level=info'', ''video_bit_rate=8000000'',
      ''max_fps=60'', ''audio=false'', ''video_codec=h264'']"
  by (simp add: get_server_args_eq SERVER_VERSION_def hex_nat_def digits.simps digit_char_def
      dict_or_def predefined_def str_nat_bit_rate str_nat_max_fps arg_token_def)

section \<open>Properties of stopping\<close>

lemma trace_emit [simp]: "trace (emit e c) = trace c @ [e]"
  by (simp add: emit_def)

lemma trace_log [simp]: "trace (log l m c) = trace c @ [Log l m]"
  by (simp add: log_def)

lemma join_worker_eq:
  "join_worker c =
     c\<lparr>stream_thread := (case stream_thread c of Some Alive \<Rightarrow> Some Finished | w \<Rightarrow> w),
       trace := trace c @ (if stream_thread c = Some Alive then [Join_worker] else [])\<rparr>"
  by (simp add: join_worker_def emit_def split: option.splits worker.splits)

lemma close_control_eq:
  "close_control c =
     c\<lparr>control_socket := (case control_socket c of None \<Rightarrow> None | Some h \<Rightarrow> Some Closed),
       trace := trace c @ (if control_socket c \<noteq> None then [Close_control] else [])\<rparr>"
  by (simp add: close_control_def emit_def split: option.splits)

lemma close_video_eq:
  "close_video c =
     c\<lparr>video_socket := (case video_socket c of None \<Rightarrow> None | Some h \<Rightarrow> Some Closed),
       trace := trace c @ (if video_socket c \<noteq> None then [Close_video] else [])\<rparr>"
  by (simp add: close_video_def emit_def split: option.splits)

lemma terminate_server_eq:
  "terminate_server c =
     c\<lparr>server_process := (case server_process c of None \<Rightarrow> None | Some p \<Rightarrow> Some Reaped),
       trace := trace c @ (if server_process c \<noteq> None
          then [Terminate, Wait_process, Log DEBUG ''Server process terminated.''] else [])\<rparr>"
  by (simp add: terminate_server_def emit_def log_def split: option.splits)

lemma remove_forward_eq:
  "remove_forward x c =
     c\<lparr>trace := trace c @ (if port_set c
          then [Shell_remove (''localabstract:'' @ socket_name c),
                if x = None then Log DEBUG ''Reverse tunnel removed.''
                else Log WARNING ''Failed to remove reverse tunnel'']
          else [])\<rparr>"
  by (simp add: remove_forward_def emit_def log_def Let_def split: option.splits)

lemma stop_eq:
  "stop x c =
     c\<lparr>is_running := False, last_frame := None, resolution := None,
       server_process := (case server_process c of None \<Rightarrow> None | Some p \<Rightarrow> Some Reaped),
       video_socket := (case video_socket c of None \<Rightarrow> None | Some h \<Rightarrow> Some Closed),
       control_socket := (case control_socket c of None \<Rightarrow> None | Some h \<Rightarrow> Some Closed),
       stream_thread := (case stream_thread c of Some Alive \<Rightarrow> Some Finished | w \<Rightarrow> w),
       trace := trace c
         @ [Log INFO ''Stopping client...'']
         @ (if stream_thread c = Some Alive then [Join_worker] else [])
         @ (if control_socket c \<noteq> None then [Close_control] else [])
         @ (if video_socket c \<noteq> None then [Close_video] else [])
         @ (if server_process c \<noteq> None
            then [Terminate, Wait_process, Log DEBUG ''Server process terminated.''] else [])
         @ (if port_set c
            then [Shell_remove (''localabstract:'' @ socket_name c),
                  if x = None then Log DEBUG ''Reverse tunnel removed.''
                  else Log WARNING ''Failed to remove reverse tunnel'']
            else [])
         @ [Log INFO ''Client stopped.'']\<rparr>"
  unfolding stop_def Let_def
  by (simp add: join_worker_eq close_control_eq close_video_eq terminate_server_eq
        remove_forward_eq log_def emit_def port_set_def)



text \<open>
  Claim C3. After one \<open>stop\<close> the client is not running, its resolution and last frame are
  unset, and no worker is alive, no socket open and no server running; a second \<open>stop\<close>,
  whatever the device answers to it, leaves every field of the client as the first did:
  closing the closed sockets and terminating the reaped process change nothing.
\<close>

theorem stop_idempotent:
  "client_view (stop y (stop x c)) = client_view (stop x c)
   \<and> \<not> is_running (stop x c)
   \<and> resolution (stop x c) = None
   \<and> last_frame (stop x c) = None
   \<and> stream_thread (stop x c) \<noteq> Some Alive
   \<and> control_socket (stop x c) \<noteq> Some Open
   \<and> video_socket (stop x c) \<noteq> Some Open
   \<and> server_process (stop x c) \<noteq> Some Running"
  by (simp add: stop_eq client_view_def split: option.splits worker.splits)

text \<open>
  Claim C9. \<open>stop\<close> changes the running flag, the last frame, the resolution, the state of
  the handles and the record of effects, and no other field: the device name and the codec
  keep the values they had, those of the handshake when there was one.
\<close>

theorem stop_frame:
  "stop x c =
     c\<lparr>is_running := is_running (stop x c),
       last_frame := last_frame (stop x c),
       resolution := resolution (stop x c),
       server_process := server_process (stop x c),
       video_socket := video_socket (stop x c),
       control_socket := control_socket (stop x c),
       stream_thread := stream_thread (stop x c),
       trace := trace (stop x c)\<rparr>
   \<and> device_name (stop x c) = device_name c
   \<and> video_codec (stop x c) = video_codec c"
  by (simp add: stop_eq)

section \<open>Properties of the event dispatch\<close>

lemma client_view_emit [simp]: "client_view (emit e c) = client_view c"
  by (simp add: client_view_def emit_def)

lemma client_view_log [simp]: "client_view (log l m c) = client_view c"
  by (simp add: log_def)

lemma client_view_call_listeners [simp]:
  "client_view (call_listeners ev args k ls c) = client_view c"
  by (induction ls arbitrary: k c) (auto simp: Let_def split: option.splits)





section \<open>Properties of the stream loop\<close>

lemma extract_loop_idle:
  "\<not> is_running c \<or> length buf < 12 \<or> length buf < 12 + from_bytes_big (slice 8 12 buf) \<Longrightarrow>
     extract_loop dec c buf hist = (Returns (), c, buf, hist)"
  by (subst extract_loop.simps) (auto simp: Let_def)

lemma extract_loop_packet:
  "is_running c \<Longrightarrow> 12 + from_bytes_big (slice 8 12 buf) \<le> length buf \<Longrightarrow>
     extract_loop dec c buf hist =
       (let packet_size = from_bytes_big (slice 8 12 buf);
            packet_data = slice 12 (12 + packet_size) buf;
            rest = drop (12 + packet_size) buf;
            hist' = hist @ [packet_data];
            c1 = emit (Parse packet_data) c
        in case dec hist' of
             Parse_raises x \<Rightarrow> (Raises x, c1, rest, hist')
           | Packets ps \<Rightarrow>
               (case decode_packets ps c1 of
                  (Raises x, c2) \<Rightarrow> (Raises x, c2, rest, hist')
                | (Returns u, c2) \<Rightarrow> extract_loop dec c2 rest hist'))"
  by (subst extract_loop.simps) (simp add: Let_def)

lemma is_running_emit [simp]: "is_running (emit e c) = is_running c"
  by (simp add: emit_def)

lemma is_running_log [simp]: "is_running (log l m c) = is_running c"
  by (simp add: log_def)

lemma is_running_call_listeners [simp]:
  "is_running (call_listeners ev args i ls c) = is_running c"
  by (induction ls arbitrary: i c) (auto simp: Let_def split: option.splits)

lemma is_running_send [simp]: "is_running (send_to_listeners ev args c) = is_running c"
  by (simp add: send_to_listeners_def)

lemma is_running_deliver [simp]: "is_running (deliver_frames fs c) = is_running c"
  by (induction fs arbitrary: c) auto

lemma is_running_decode:
  "decode_packets ps c = (r, c') \<Longrightarrow> is_running c' = is_running c"
  by (induction ps c rule: decode_packets.induct) auto

text \<open>
  Claim C2. Whatever the accumulator holds when the inner loop starts, the loop takes from
  its front exactly 12 bytes and the payload for each packet it hands on, never more than is
  buffered; and when it ends by a \<open>break\<close> with the client running, fewer than 12 bytes are
  left, or at least 12 but fewer than 12 plus the length that bytes 8 to 11 declare: no
  complete packet stays behind.
\<close>

theorem extract_loop_invariant:
  assumes "extract_loop dec c buf hist = (r, c', buf', hist')"
  shows "(\<exists>new. hist' = hist @ new
            \<and> sum_list (map (\<lambda>p. 12 + length p) new) \<le> length buf
            \<and> buf' = drop (sum_list (map (\<lambda>p. 12 + length p) new)) buf)
         \<and> (r = Returns () \<and> is_running c \<longrightarrow>
              length buf' < 12
              \<or> (12 \<le> length buf' \<and> length buf' < 12 + from_bytes_big (slice 8 12 buf')))"
  using assms
proof (induction dec c buf hist arbitrary: r c' buf' hist' rule: extract_loop.induct)
  case (1 dec c data_buffer hist)
  let ?ps = "from_bytes_big (slice 8 12 data_buffer)"
  let ?pd = "slice 12 (12 + ?ps) data_buffer"
  let ?rest = "drop (12 + ?ps) data_buffer"
  let ?h = "hist @ [?pd]"
  let ?c1 = "emit (Parse ?pd) c"
  show ?case
  proof (cases "is_running c \<and> 12 + ?ps \<le> length data_buffer")
    case False
    then have idle: "\<not> is_running c \<or> length data_buffer < 12 \<or> length data_buffer < 12 + ?ps"
      by auto
    from "1.prems" extract_loop_idle [OF idle, of dec hist]
    have eq: "r = Returns ()" "c' = c" "buf' = data_buffer" "hist' = hist"
      by auto
    have "\<exists>new. hist' = hist @ new
            \<and> sum_list (map (\<lambda>p. 12 + length p) new) \<le> length data_buffer
            \<and> buf' = drop (sum_list (map (\<lambda>p. 12 + length p) new)) data_buffer"
      by (rule exI [of _ "[]"]) (simp add: eq)
    moreover have "is_running c \<longrightarrow> length buf' < 12
              \<or> (12 \<le> length buf' \<and> length buf' < 12 + from_bytes_big (slice 8 12 buf'))"
      using False eq by auto
    ultimately show ?thesis by blast
  next
    case True
    then have run: "is_running c" and full: "12 + ?ps \<le> length data_buffer" by auto
    have len_pd: "length ?pd = ?ps"
      using full by (simp add: slice_def)
    note unfold = extract_loop_packet [OF run full, of dec hist, unfolded Let_def]
    have one: "\<exists>new. ?h = hist @ new
            \<and> sum_list (map (\<lambda>p. 12 + length p) new) \<le> length data_buffer
            \<and> ?rest = drop (sum_list (map (\<lambda>p. 12 + length p) new)) data_buffer"
      by (rule exI [of _ "[?pd]"]) (use full len_pd in simp)
    show ?thesis
    proof (cases "dec ?h")
      case (Parse_raises x)
      with unfold "1.prems" have "r = Raises x" "buf' = ?rest" "hist' = ?h" by auto
      with one show ?thesis by simp
    next
      case (Packets ps)
      obtain r2 c2 where d: "decode_packets ps ?c1 = (r2, c2)"
        by (cases "decode_packets ps ?c1")
      show ?thesis
      proof (cases r2)
        case (Raises x)
        with unfold Packets d "1.prems" have "r = Raises x" "buf' = ?rest" "hist' = ?h"
          by auto
        with one show ?thesis by simp
      next
        case (Returns u)
        with unfold Packets d "1.prems"
        have rec: "extract_loop dec c2 ?rest ?h = (r, c', buf', hist')" by simp
        have run2: "is_running c2"
          using is_running_decode [OF d] run by simp
        have ih: "(\<exists>new. hist' = ?h @ new
            \<and> sum_list (map (\<lambda>p. 12 + length p) new) \<le> length ?rest
            \<and> buf' = drop (sum_list (map (\<lambda>p. 12 + length p) new)) ?rest)
         \<and> (r = Returns () \<and> is_running c2 \<longrightarrow>
              length buf' < 12
              \<or> (12 \<le> length buf' \<and> length buf' < 12 + from_bytes_big (slice 8 12 buf')))"
          using "1.IH" [OF _ _ refl _ refl refl refl refl Packets d [symmetric] _ rec] True Returns
          by auto
        then obtain new where n1: "hist' = ?h @ new"
          and n2: "sum_list (map (\<lambda>p. 12 + length p) new) \<le> length ?rest"
          and n3: "buf' = drop (sum_list (map (\<lambda>p. 12 + length p) new)) ?rest"
          by blast
        have "\<exists>new. hist' = hist @ new
            \<and> sum_list (map (\<lambda>p. 12 + length p) new) \<le> length data_buffer
            \<and> buf' = drop (sum_list (map (\<lambda>p. 12 + length p) new)) data_buffer"
          by (rule exI [of _ "?pd # new"]) (use n1 n2 n3 full len_pd in \<open>simp add: add.commute\<close>)
        with ih run2 show ?thesis by blast
      qed
    qed
  qed
qed

theorem extract_loop_invariant_witness:
  "extract_loop demo_decoder demo_streaming
      ([0, 0, 0, 0, 0, 0, 0, 0] @ [0, 0, 0, 2] @ [7, 8] @ [1, 1, 1]) []
     = (Returns (),
        send_to_listeners FRAME (FrameArg [1, 2, 3])
          ((emit (Parse [7, 8]) demo_streaming)\<lparr>last_frame := Some [1, 2, 3]\<rparr>),
        [1, 1, 1], [[7, 8]])
   \<and> is_running demo_streaming
   \<and> length [1 :: byte, 1, 1] < 12"
proof -
  have run: "is_running demo_streaming"
    by (simp add: demo_streaming_def new_client_def)
  have e: "extract_loop demo_decoder demo_streaming
      ([0, 0, 0, 0, 0, 0, 0, 0] @ [0, 0, 0, 2] @ [7, 8] @ [1, 1, 1]) []
     = (Returns (),
        send_to_listeners FRAME (FrameArg [1, 2, 3])
          ((emit (Parse [7, 8]) demo_streaming)\<lparr>last_frame := Some [1, 2, 3]\<rparr>),
        [1, 1, 1], [[7, 8]])"
    by (subst extract_loop_packet)
       (simp_all add: run slice_def from_bytes_big_def demo_decoder_def extract_loop_idle Let_def)
  from extract_loop_invariant [OF e] run e show ?thesis by simp
qed

lemma slice_header:
  assumes "buf @ tail = hdr @ lf @ payload" "length hdr = 8" "length lf = 4" "12 \<le> length buf"
  shows "slice 8 12 buf = lf"
proof -
  have "take 12 buf = take 12 (buf @ tail)" using assms(4) by simp
  also have "\<dots> = hdr @ lf" using assms(1-3) by simp
  finally have "take 12 buf = hdr @ lf" .
  then have "drop 8 (take 12 buf) = lf" using assms(2) by simp
  then show ?thesis by (simp add: slice_def drop_take)
qed

lemma prefix_idle:
  assumes "buf @ tail = hdr @ lf @ payload" "length hdr = 8" "length lf = 4"
    "from_bytes_big lf = length payload" "length buf < 12 + length payload"
  shows "extract_loop dec c buf hist = (Returns (), c, buf, hist)"
proof (cases "length buf < 12")
  case True
  then show ?thesis by (intro extract_loop_idle) simp
next
  case False
  then have "slice 8 12 buf = lf"
    using slice_header [OF assms(1-3)] by simp
  with assms(4,5) show ?thesis by (intro extract_loop_idle) simp
qed

lemma whole_packet:
  assumes "length hdr = 8" "length lf = 4" "from_bytes_big lf = length payload" "is_running c"
  shows "\<exists>r c2. extract_loop dec c (hdr @ lf @ payload) [] = (r, c2, [], [payload])
            \<and> video_inbound c2 = video_inbound c"
proof -
  let ?P = "hdr @ lf @ payload"
  have hd: "slice 8 12 ?P = lf"
    using slice_header [of ?P "[]" hdr lf payload] assms(1,2) by simp
  have full: "12 + from_bytes_big (slice 8 12 ?P) \<le> length ?P"
    using assms(1-3) hd by simp
  have pd: "slice 12 (12 + length payload) ?P = payload"
    using assms(1,2) by (simp add: slice_def)
  have rest: "drop (12 + length payload) ?P = []"
    using assms(1,2) by simp
  note unfold = extract_loop_packet [OF assms(4) full, of dec "[]", unfolded Let_def hd assms(3) pd rest]
  let ?c1 = "emit (Parse payload) c"
  show ?thesis
  proof (cases "dec [payload]")
    case (Parse_raises x)
    with unfold show ?thesis by simp
  next
    case (Packets ps)
    obtain r2 c2 where d: "decode_packets ps ?c1 = (r2, c2)" by (cases "decode_packets ps ?c1")
    have v: "video_inbound c2 = video_inbound c"
      using video_inbound_decode [OF d] by simp
    show ?thesis
    proof (cases r2)
      case (Raises x)
      with unfold Packets d v show ?thesis by simp
    next
      case (Returns u)
      have "extract_loop dec c2 [] [payload] = (Returns (), c2, [], [payload])"
        by (intro extract_loop_idle) simp
      with unfold Packets d v Returns show ?thesis by simp
    qed
  qed
qed

lemma drain:
  "list_all (\<lambda>s. s = Timed_out) (video_inbound c) \<Longrightarrow>
     \<exists>c'. stream_iter dec c buf hist = (c', buf, hist)"
proof (induction "video_inbound c" arbitrary: c)
  case Nil
  obtain x c1 where r: "sock_recv 65536 c = (x, c1)" by (cases "sock_recv 65536 c")
  show ?case
  proof (cases x)
    case (Got chunk)
    with r Nil(1) [symmetric] have "chunk = []"
      by (auto simp: sock_recv_def split: option.splits handle.splits)
    with r Got show ?thesis
      by (subst stream_iter.simps) simp
  next
    case (Recv_raises e)
    with r Nil(1) [symmetric] have ne: "e \<noteq> SocketTimeout"
      by (auto simp: sock_recv_def split: option.splits handle.splits)
    from r Recv_raises have "fst (loop_handlers e c1) = Break"
      by (intro sock_recv_raises_break [of 65536 c e c1]) simp
    then obtain c2 where "loop_handlers e c1 = (Break, c2)"
      by (cases "loop_handlers e c1") auto
    with r Recv_raises ne show ?thesis
      by (subst stream_iter.simps) simp
  qed
next
  case (Cons s segs)
  from Cons(2) [symmetric] Cons(3) have s: "s = Timed_out" and all: "list_all (\<lambda>s. s = Timed_out) segs"
    by auto
  obtain x c1 where r: "sock_recv 65536 c = (x, c1)" by (cases "sock_recv 65536 c")
  show ?case
  proof (cases "video_socket c = Some Open")
    case True
    with r Cons(2) [symmetric] s have x: "x = Recv_raises SocketTimeout"
      and c1: "c1 = c\<lparr>video_inbound := segs\<rparr>"
      by (auto simp: sock_recv_def)
    from c1 have "segs = video_inbound c1" by simp
    from Cons(1) [OF this] all c1 obtain c' where "stream_iter dec c1 buf hist = (c', buf, hist)"
      by auto
    with r x show ?thesis
      by (subst stream_iter.simps) auto
  next
    case False
    with r obtain e where x: "x = Recv_raises e" and ne: "e \<noteq> SocketTimeout"
      by (auto simp: sock_recv_def split: option.splits handle.splits)
    from r x have "fst (loop_handlers e c1) = Break"
      by (intro sock_recv_raises_break [of 65536 c e c1]) simp
    then obtain c2 where "loop_handlers e c1 = (Break, c2)"
      by (cases "loop_handlers e c1") auto
    with r x ne show ?thesis
      by (subst stream_iter.simps) simp
  qed
qed

lemma only_timeouts:
  "list_all arrives segs \<Longrightarrow> concat (map seg_bytes segs) = [] \<Longrightarrow>
     list_all (\<lambda>s. s = Timed_out) segs"
proof (induction segs)
  case Nil
  show ?case by simp
next
  case (Cons s segs)
  then show ?case by (cases s) auto
qed

lemma sock_recv_bytes:
  assumes "video_socket c = Some Open" "video_inbound c = Bytes bs # r" "bs \<noteq> []"
    "list_all arrives r"
  shows "\<exists>chunk rest. sock_recv 65536 c = (Got chunk, c\<lparr>video_inbound := rest\<rparr>)
           \<and> chunk \<noteq> []
           \<and> chunk @ concat (map seg_bytes rest) = bs @ concat (map seg_bytes r)
           \<and> list_all arrives rest
           \<and> sum_list (map seg_size rest) < sum_list (map seg_size (Bytes bs # r))"
proof (cases "length bs \<le> 65536")
  case True
  with assms show ?thesis
    by (intro exI [of _ bs] exI [of _ r]) (simp add: sock_recv_def)
next
  case False
  then have "drop 65536 bs \<noteq> []" "take 65536 bs \<noteq> []" using assms(3) by auto
  with False assms show ?thesis
    by (intro exI [of _ "take 65536 bs"] exI [of _ "Bytes (drop 65536 bs) # r"])
       (simp add: sock_recv_def)
qed

lemma accumulate:
  assumes hdr: "length hdr = 8" and lf: "length lf = 4"
    and len: "from_bytes_big lf = length payload"
  shows "is_running c \<Longrightarrow> video_socket c = Some Open \<Longrightarrow>
         list_all arrives (video_inbound c) \<Longrightarrow>
         buf @ concat (map seg_bytes (video_inbound c)) = hdr @ lf @ payload \<Longrightarrow>
         length buf < 12 + length payload \<Longrightarrow>
         \<exists>c'. stream_iter dec c buf [] = (c', [], [payload])"
proof (induction "to_come c" arbitrary: c buf rule: less_induct)
  case less
  note run = less.prems(1) and opn = less.prems(2) and arr = less.prems(3)
    and bytes = less.prems(4) and short = less.prems(5)
  show ?case
  proof (cases "video_inbound c")
    case Nil
    with bytes have "buf = hdr @ lf @ payload" by simp
    then have "length buf = 12 + length payload" using hdr lf by simp
    with short show ?thesis by simp
  next
    case (Cons s r)
    with arr have arr_r: "list_all arrives r" and arr_s: "arrives s" by auto
    show ?thesis
    proof (cases s)
      case Failed
      with arr_s show ?thesis by simp
    next
      case Timed_out
      let ?c1 = "c\<lparr>video_inbound := r\<rparr>"
      have r: "sock_recv 65536 c = (Recv_raises SocketTimeout, ?c1)"
        using opn Cons Timed_out by (simp add: sock_recv_def)
      have "to_come ?c1 < to_come c"
        using Cons Timed_out by (simp add: to_come_def)
      from less.hyps [OF this, of buf] run opn arr_r bytes short Cons Timed_out
      obtain c' where "stream_iter dec ?c1 buf [] = (c', [], [payload])"
        by auto
      with r run show ?thesis
        by (subst stream_iter.simps) simp
    next
      case (Bytes bs)
      with arr_s have ne: "bs \<noteq> []" by simp
      from sock_recv_bytes [OF opn Cons [unfolded Bytes] ne arr_r]
      obtain chunk rest where
        r: "sock_recv 65536 c = (Got chunk, c\<lparr>video_inbound := rest\<rparr>)" and
        chunk: "chunk \<noteq> []" and
        cat: "chunk @ concat (map seg_bytes rest) = bs @ concat (map seg_bytes r)" and
        arr': "list_all arrives rest" and
        smaller: "sum_list (map seg_size rest) < sum_list (map seg_size (Bytes bs # r))"
        by blast
      let ?c1 = "c\<lparr>video_inbound := rest\<rparr>"
      let ?buf1 = "buf @ chunk"
      have bytes1: "?buf1 @ concat (map seg_bytes rest) = hdr @ lf @ payload"
        using bytes cat Cons Bytes by simp
      have less1: "to_come ?c1 < to_come c"
        using smaller Cons Bytes by (simp add: to_come_def)
      have run1: "is_running ?c1" and opn1: "video_socket ?c1 = Some Open"
        using run opn by simp_all
      show ?thesis
      proof (cases "length ?buf1 < 12 + length payload")
        case True
        have idle: "extract_loop dec ?c1 ?buf1 [] = (Returns (), ?c1, ?buf1, [])"
          by (rule prefix_idle [OF bytes1 hdr lf len True])
        from less.hyps [OF less1, of ?buf1] run1 opn1 arr' bytes1 True
        obtain c' where "stream_iter dec ?c1 ?buf1 [] = (c', [], [payload])"
          by auto
        with r run chunk idle show ?thesis
          by (subst stream_iter.simps) simp
      next
        case False
        define n where "n = length (concat (map seg_bytes rest))"
        have a: "length buf + length chunk + n = 12 + length payload"
          using arg_cong [OF bytes1, of length] hdr lf by (simp add: n_def)
        have b: "\<not> length buf + length chunk < 12 + length payload"
          using False by simp
        from a b have "n = 0" by arith
        then have tail: "concat (map seg_bytes rest) = []"
          unfolding n_def by (rule length_0_conv [THEN iffD1])
        with bytes1 have whole: "?buf1 = hdr @ lf @ payload" by simp
        from only_timeouts [OF arr' tail]
        have quiet: "list_all (\<lambda>s. s = Timed_out) rest" .
        from whole_packet [OF hdr lf len run1, of dec] obtain x c2 where
          ex: "extract_loop dec ?c1 (hdr @ lf @ payload) [] = (x, c2, [], [payload])" and
          v2: "video_inbound c2 = rest"
          by auto
        show ?thesis
        proof (cases x)
          case (Returns u)
          from drain [of c2 dec "[]" "[payload]"] quiet v2
          obtain c' where "stream_iter dec c2 [] [payload] = (c', [], [payload])" by auto
          with r run chunk ex Returns whole show ?thesis
            by (subst stream_iter.simps) simp
        next
          case (Raises e)
          obtain k c3 where h: "loop_handlers e c2 = (k, c3)" by (cases "loop_handlers e c2")
          have v3: "video_inbound c3 = rest"
            using video_inbound_handlers [OF h] v2 by simp
          show ?thesis
          proof (cases k)
            case Break
            with r run chunk ex Raises whole h show ?thesis
              by (subst stream_iter.simps) simp
          next
            case Continue
            from drain [of c3 dec "[]" "[payload]"] quiet v3
            obtain c' where "stream_iter dec c3 [] [payload] = (c', [], [payload])" by auto
            with r run chunk ex Raises whole h Continue show ?thesis
              by (subst stream_iter.simps) simp
          qed
        qed
      qed
    qed
  qed
qed

lemma from_bytes_big_be32:
  assumes "n < 4294967296"
  shows "from_bytes_big (be32 n) = n \<and> length (be32 n) = 4"
proof -
  define a where "a = n div 256"
  define b where "b = a div 256"
  define c where "c = b div 256"
  have b': "n div 65536 = b"
    unfolding b_def a_def by (simp add: div_mult2_eq [symmetric])
  have c': "n div 16777216 = c"
    unfolding c_def b_def a_def by (simp add: div_mult2_eq [symmetric])
  have "c < 256"
    using assms unfolding c' [symmetric] by simp
  then have cm: "c mod 256 = c" by simp
  have n: "n = a * 256 + n mod 256" unfolding a_def by simp
  have a: "a = b * 256 + a mod 256" unfolding b_def by simp
  have b: "b = c * 256 + b mod 256" unfolding c_def by simp
  have "((c mod 256 * 256 + b mod 256) * 256 + a mod 256) * 256 + n mod 256 = n"
    unfolding cm using n a b by metis
  then show ?thesis
    by (simp add: from_bytes_big_def be32_def unat_of_nat b' c' a_def [symmetric])
qed

text \<open>
  Claim C1. Let a packet be 8 header bytes, a 4-byte length field holding the length of the
  payload, and the payload, and let it arrive in any pieces, each read returning some bytes
  or timing out. Started running on an open socket with an empty accumulator, the loop hands
  exactly that payload to the decoder, once, and ends with an empty accumulator: the
  12 bytes and the payload are consumed. Every length below \<open>2^32\<close> has such a field
  (\<open>from_bytes_big_be32\<close>).
\<close>

theorem one_packet_any_split:
  assumes "is_running c" and "video_socket c = Some Open"
    and "list_all arrives (video_inbound c)"
    and "concat (map seg_bytes (video_inbound c)) = hdr @ len_field @ payload"
    and "length hdr = 8" and "length len_field = 4"
    and "from_bytes_big len_field = length payload"
  shows "\<exists>c'. stream_iter dec c [] [] = (c', [], [payload])"
  using accumulate [OF assms(5,6,7,1,2,3), of "[]" dec] assms(4) by simp

theorem one_packet_any_split_witness:
  "is_running demo_streaming \<and> video_socket demo_streaming = Some Open
   \<and> list_all arrives (video_inbound demo_streaming)
   \<and> concat (map seg_bytes (video_inbound demo_streaming))
        = [0, 0, 0, 0, 0, 0, 0, 0] @ [0, 0, 0, 2] @ [7, 8]
   \<and> from_bytes_big [0, 0, 0, 2] = length [7 :: byte, 8]
   \<and> (\<exists>c'. stream_iter demo_decoder demo_streaming [] [] = (c', [], [[7, 8]]))"
  using one_packet_any_split [of demo_streaming "[0, 0, 0, 0, 0, 0, 0, 0]" "[0, 0, 0, 2]"
      "[7, 8]" demo_decoder]
  by (simp add: demo_streaming_def new_client_def from_bytes_big_def)

section \<open>Properties of the events of a session\<close>

lemma published_append [simp]: "published (a @ b) = published a @ published b"
  by (induction a rule: published.induct) auto

lemma frame_events_append: "frame_events (a @ b) = frame_events a @ frame_events b"
  by (simp add: frame_events_def)

lemma call_listeners_quiet:
  "\<exists>t. trace (call_listeners ev args k ls c) = trace c @ t \<and> published t = []"
proof (induction ls arbitrary: k c)
  case Nil
  show ?case by simp
next
  case (Cons l ls)
  let ?c1 = "emit (Invoked ev k args) c"
  let ?c2 = "case l (trace ?c1) args of None \<Rightarrow> ?c1
             | Some e \<Rightarrow> log ERROR ''Error in listener for event'' ?c1"
  from Cons [of "Suc k" ?c2] obtain t where
    t: "trace (call_listeners ev args (Suc k) ls ?c2) = trace ?c2 @ t" "published t = []"
    by blast
  have "\<exists>u. trace ?c2 = trace c @ u \<and> published u = []"
    by (cases "l (trace ?c1) args") auto
  then obtain u where u: "trace ?c2 = trace c @ u" "published u = []" by blast
  have "trace (call_listeners ev args k (l # ls) c) = trace c @ (u @ t)"
    using t(1) u(1) by (simp add: Let_def)
  moreover have "published (u @ t) = []" using t(2) u(2) by simp
  ultimately show ?case by blast
qed

lemma send_to_listeners_published:
  "\<exists>t. trace (send_to_listeners ev args c) = trace c @ t \<and> published t = [(ev, args)]"
proof -
  from call_listeners_quiet [of ev args 0 "listeners c ev" "emit (Published ev args) c"]
  obtain t where "trace (send_to_listeners ev args c) = trace c @ (Published ev args # t)"
    "published t = []"
    by (auto simp: send_to_listeners_def)
  then show ?thesis by (intro exI [of _ "Published ev args # t"]) simp
qed

lemma deliver_frames_published:
  "\<exists>t. trace (deliver_frames fs c) = trace c @ t \<and> published t = frame_events fs"
proof (induction fs arbitrary: c)
  case Nil
  show ?case by (simp add: frame_events_def)
next
  case (Cons f fs)
  let ?c1 = "send_to_listeners FRAME (FrameArg f) (c\<lparr>last_frame := Some f\<rparr>)"
  from send_to_listeners_published [of FRAME "FrameArg f" "c\<lparr>last_frame := Some f\<rparr>"]
  obtain u where u: "trace ?c1 = trace c @ u" "published u = [(FRAME, FrameArg f)]" by auto
  from Cons [of ?c1] obtain t where
    t: "trace (deliver_frames fs ?c1) = trace ?c1 @ t" "published t = frame_events fs" by blast
  have "trace (deliver_frames (f # fs) c) = trace c @ (u @ t)" using u(1) t(1) by simp
  moreover have "published (u @ t) = frame_events (f # fs)"
    using u(2) t(2) by (simp add: frame_events_def)
  ultimately show ?case by blast
qed

lemma decode_packets_published:
  "decode_packets ps c = (r, c') \<Longrightarrow>
     \<exists>t fs. trace c' = trace c @ t \<and> published t = frame_events fs"
proof (induction ps c arbitrary: r c' rule: decode_packets.induct)
  case (1 c)
  then show ?case by (intro exI [of _ "[]"]) (simp add: frame_events_def)
next
  case (2 x ps c)
  then show ?case by (intro exI [of _ "[]"]) (simp add: frame_events_def)
next
  case (3 fs ps c)
  from deliver_frames_published [of fs c] obtain u where
    u: "trace (deliver_frames fs c) = trace c @ u" "published u = frame_events fs" by blast
  from 3 obtain t gs where
    t: "trace c' = trace (deliver_frames fs c) @ t" "published t = frame_events gs" by auto
  have "trace c' = trace c @ (u @ t)" using u(1) t(1) by simp
  moreover have "published (u @ t) = frame_events (fs @ gs)"
    using u(2) t(2) by (simp add: frame_events_append)
  ultimately show ?case by blast
qed

lemma extract_loop_published:
  "extract_loop dec c buf hist = (r, c', buf', hist') \<Longrightarrow>
     \<exists>t fs. trace c' = trace c @ t \<and> published t = frame_events fs"
proof (induction dec c buf hist arbitrary: r c' buf' hist' rule: extract_loop.induct)
  case (1 dec c data_buffer hist)
  let ?ps = "from_bytes_big (slice 8 12 data_buffer)"
  let ?pd = "slice 12 (12 + ?ps) data_buffer"
  let ?rest = "drop (12 + ?ps) data_buffer"
  let ?h = "hist @ [?pd]"
  let ?c1 = "emit (Parse ?pd) c"
  have nil: "published [] = frame_events []" by (simp add: frame_events_def)
  show ?case
  proof (cases "is_running c \<and> 12 + ?ps \<le> length data_buffer")
    case False
    then have "\<not> is_running c \<or> length data_buffer < 12 \<or> length data_buffer < 12 + ?ps"
      by auto
    from "1.prems" extract_loop_idle [OF this, of dec hist] have "c' = c" by simp
    with nil show ?thesis by (intro exI [of _ "[]"]) simp
  next
    case True
    then have run: "is_running c" and full: "12 + ?ps \<le> length data_buffer" by auto
    note unfold = extract_loop_packet [OF run full, of dec hist, unfolded Let_def]
    have one: "trace ?c1 = trace c @ [Parse ?pd]" "published [Parse ?pd] = frame_events []"
      by (simp_all add: frame_events_def)
    show ?thesis
    proof (cases "dec ?h")
      case (Parse_raises x)
      with unfold "1.prems" have "c' = ?c1" by simp
      with one show ?thesis by blast
    next
      case (Packets ps)
      obtain r2 c2 where d: "decode_packets ps ?c1 = (r2, c2)"
        by (cases "decode_packets ps ?c1")
      from decode_packets_published [OF d] obtain u gs where
        u: "trace c2 = trace ?c1 @ u" "published u = frame_events gs" by blast
      have two: "trace c2 = trace c @ (Parse ?pd # u)" "published (Parse ?pd # u) = frame_events gs"
        using u by simp_all
      show ?thesis
      proof (cases r2)
        case (Raises x)
        with unfold Packets d "1.prems" have "c' = c2" by simp
        with two show ?thesis by blast
      next
        case (Returns v)
        with unfold Packets d "1.prems"
        have rec: "extract_loop dec c2 ?rest ?h = (r, c', buf', hist')" by simp
        have "\<exists>t fs. trace c' = trace c2 @ t \<and> published t = frame_events fs"
          using "1.IH" [OF _ _ refl _ refl refl refl refl Packets d [symmetric] _ rec] True Returns
          by auto
        then obtain t fs where t: "trace c' = trace c2 @ t" "published t = frame_events fs"
          by blast
        have "trace c' = trace c @ ((Parse ?pd # u) @ t)" using two(1) t(1) by simp
        moreover have "published ((Parse ?pd # u) @ t) = frame_events (gs @ fs)"
          using two(2) t(2) by (simp add: frame_events_append)
        ultimately show ?thesis by blast
      qed
    qed
  qed
qed

lemma loop_handlers_quiet:
  "loop_handlers x c = (k, c') \<Longrightarrow> \<exists>t. trace c' = trace c @ t \<and> published t = []"
  by (auto simp: loop_handlers_def split: if_splits)

lemma sock_recv_trace: "sock_recv n c = (r, c') \<Longrightarrow> trace c' = trace c"
  by (auto simp: sock_recv_def split: option.splits handle.splits prod.splits)

lemma stream_iter_published:
  "stream_iter dec c buf hist = (c', buf', hist') \<Longrightarrow>
     \<exists>t fs. trace c' = trace c @ t \<and> published t = frame_events fs"
proof (induction "to_come c" arbitrary: c buf hist rule: less_induct)
  case less
  note run_eq = less.prems
  have nil: "published [] = frame_events []" by (simp add: frame_events_def)
  show ?case
  proof (cases "is_running c")
    case False
    with run_eq have "c' = c" by (subst (asm) stream_iter.simps) simp
    with nil show ?thesis by (intro exI [of _ "[]"]) simp
  next
    case True
    obtain x c1 where r: "sock_recv 65536 c = (x, c1)" by (cases "sock_recv 65536 c")
    have tr1: "trace c1 = trace c" by (rule sock_recv_trace [OF r])
    show ?thesis
    proof (cases x)
      case (Recv_raises e)
      show ?thesis
      proof (cases "e = SocketTimeout")
        case timeout: True
        with r Recv_raises True run_eq
        have rec: "stream_iter dec c1 buf hist = (c', buf', hist')"
          by (subst (asm) stream_iter.simps) simp
        have "to_come c1 < to_come c"
          using r Recv_raises timeout by (intro sock_recv_timeout_shrinks [of 65536]) simp
        from less.hyps [OF this rec] tr1 show ?thesis by simp
      next
        case False
        obtain k c2 where h: "loop_handlers e c1 = (k, c2)" by (cases "loop_handlers e c1")
        from r Recv_raises have "fst (loop_handlers e c1) = Break"
          by (intro sock_recv_raises_break [of 65536 c e c1]) simp
        with h have k: "k = Break" by simp
        with r Recv_raises True False h run_eq have "c' = c2"
          by (subst (asm) stream_iter.simps) simp
        with loop_handlers_quiet [OF h] tr1 nil show ?thesis by auto
      qed
    next
      case (Got chunk)
      show ?thesis
      proof (cases "chunk = []")
        case empty: True
        with r Got True run_eq
        have "c' = log DEBUG ''Video stream ended (socket closed).'' c1"
          by (subst (asm) stream_iter.simps) simp
        then have "trace c' = trace c @ [Log DEBUG ''Video stream ended (socket closed).'']"
          using tr1 by simp
        moreover have "published [Log DEBUG ''Video stream ended (socket closed).'']
                         = frame_events []"
          by (simp add: frame_events_def)
        ultimately show ?thesis by blast
      next
        case False
        have small1: "to_come c1 < to_come c"
          using r Got False by (intro sock_recv_got_shrinks [of 65536 c chunk]) simp_all
        obtain r2 c2 b2 h2 where
          ex: "extract_loop dec c1 (buf @ chunk) hist = (r2, c2, b2, h2)"
          by (cases "extract_loop dec c1 (buf @ chunk) hist") auto
        from extract_loop_published [OF ex] obtain u gs where
          u: "trace c2 = trace c1 @ u" "published u = frame_events gs" by blast
        have small2: "to_come c2 < to_come c"
          using video_inbound_extract [OF ex] small1 by (simp add: to_come_def)
        show ?thesis
        proof (cases r2)
          case (Returns v)
          with r Got True False ex run_eq
          have rec: "stream_iter dec c2 b2 h2 = (c', buf', hist')"
            by (subst (asm) stream_iter.simps) simp
          from less.hyps [OF small2 rec] obtain t fs where
            t: "trace c' = trace c2 @ t" "published t = frame_events fs" by blast
          have "trace c' = trace c @ (u @ t)" using t(1) u(1) tr1 by simp
          moreover have "published (u @ t) = frame_events (gs @ fs)"
            using t(2) u(2) by (simp add: frame_events_append)
          ultimately show ?thesis by blast
        next
          case (Raises e)
          obtain k c3 where h: "loop_handlers e c2 = (k, c3)" by (cases "loop_handlers e c2")
          from loop_handlers_quiet [OF h] obtain w where
            w: "trace c3 = trace c2 @ w" "published w = []" by blast
          have small3: "to_come c3 < to_come c"
            using video_inbound_handlers [OF h] small2 by (simp add: to_come_def)
          show ?thesis
          proof (cases k)
            case Break
            with r Got True False ex Raises h run_eq have "c' = c3"
              by (subst (asm) stream_iter.simps) simp
            then have "trace c' = trace c @ (u @ w)" using w(1) u(1) tr1 by simp
            moreover have "published (u @ w) = frame_events gs" using w(2) u(2) by simp
            ultimately show ?thesis by blast
          next
            case Continue
            with r Got True False ex Raises h run_eq
            have rec: "stream_iter dec c3 b2 h2 = (c', buf', hist')"
              by (subst (asm) stream_iter.simps) simp
            from less.hyps [OF small3 rec] obtain t fs where
              t: "trace c' = trace c3 @ t" "published t = frame_events fs" by blast
            have "trace c' = trace c @ (u @ w @ t)" using t(1) w(1) u(1) tr1 by simp
            moreover have "published (u @ w @ t) = frame_events (gs @ fs)"
              using t(2) w(2) u(2) by (simp add: frame_events_append)
            ultimately show ?thesis by blast
          qed
        qed
      qed
    qed
  qed
qed

lemma stream_loop_published:
  "stream_loop lib c = (r, c') \<Longrightarrow>
     \<exists>t fs. trace c' = trace c @ t \<and> published t = frame_events fs"
proof (cases "video_socket c")
  case None
  assume "stream_loop lib c = (r, c')"
  with None have "c' = c" by (simp add: stream_loop_def)
  then show ?thesis by (intro exI [of _ "[]"]) (simp add: frame_events_def)
next
  case (Some h)
  assume a: "stream_loop lib c = (r, c')"
  let ?c1 = "log DEBUG ''Starting video stream loop...'' c"
  show ?thesis
  proof (cases "lib (lower (video_codec ?c1))")
    case None
    with a Some have "c' = ?c1" by (simp add: stream_loop_def Let_def)
    then show ?thesis
      by (intro exI [of _ "[Log DEBUG ''Starting video stream loop...'']"] exI [of _ "[]"])
         (simp add: frame_events_def)
  next
    case (Some codec)
    obtain c2 b2 h2 where it: "stream_iter codec ?c1 [] [] = (c2, b2, h2)"
      by (cases "stream_iter codec ?c1 [] []") auto
    from stream_iter_published [OF it] obtain t fs where
      t: "trace c2 = trace ?c1 @ t" "published t = frame_events fs" by blast
    from a \<open>video_socket c = Some h\<close> Some it
    have "c' = log INFO ''Stream loop stopped.'' (c2\<lparr>is_running := False\<rparr>)"
      by (simp add: stream_loop_def Let_def)
    then have "trace c' = trace c @ (Log DEBUG ''Starting video stream loop...'' # t
                 @ [Log INFO ''Stream loop stopped.''])"
      using t(1) by simp
    moreover have "published (Log DEBUG ''Starting video stream loop...'' # t
                 @ [Log INFO ''Stream loop stopped.'']) = frame_events fs"
      using t(2) by simp
    ultimately show ?thesis by blast
  qed
qed

lemma sock_recv_frame: "sock_recv n c = (r, c') \<Longrightarrow> \<exists>segs. c' = c\<lparr>video_inbound := segs\<rparr>"
proof (cases "video_socket c = Some Open")
  case True
  assume "sock_recv n c = (r, c')"
  with True show ?thesis by (auto simp: sock_recv_def split: prod.splits)
next
  case False
  assume "sock_recv n c = (r, c')"
  with False have "c' = c\<lparr>video_inbound := video_inbound c\<rparr>"
    by (auto simp: sock_recv_def split: option.splits handle.splits)
  then show ?thesis ..
qed

lemma recv_loop_frame:
  "recv_loop n data c = (r, c') \<Longrightarrow> \<exists>segs. c' = c\<lparr>video_inbound := segs\<rparr>"
proof (induction n data c arbitrary: r c' rule: recv_loop.induct)
  case (1 n data c)
  show ?case
  proof (cases "length data < n")
    case False
    with "1.prems" have "c' = c\<lparr>video_inbound := video_inbound c\<rparr>"
      by (subst (asm) recv_loop.simps) simp
    then show ?thesis ..
  next
    case True
    obtain x c1 where r: "sock_recv (n - length data) c = (x, c1)"
      by (cases "sock_recv (n - length data) c")
    from sock_recv_frame [OF r] obtain s1 where c1: "c1 = c\<lparr>video_inbound := s1\<rparr>" ..
    show ?thesis
    proof (cases x)
      case (Recv_raises e)
      with True r "1.prems" have "c' = c1" by (subst (asm) recv_loop.simps) simp
      with c1 show ?thesis by blast
    next
      case (Got packet)
      show ?thesis
      proof (cases "packet = []")
        case empty: True
        with Got True r "1.prems" have "c' = c1" by (subst (asm) recv_loop.simps) simp
        with c1 show ?thesis by blast
      next
        case False
        with Got True r "1.prems" have "recv_loop n (data @ packet) c1 = (r, c')"
          by (subst (asm) recv_loop.simps) simp
        from "1.IH" [OF True r [symmetric] Got False this] obtain s2 where
          "c' = c1\<lparr>video_inbound := s2\<rparr>" ..
        with c1 have "c' = c\<lparr>video_inbound := s2\<rparr>" by simp
        then show ?thesis ..
      qed
    qed
  qed
qed

lemma recv_all_frame: "recv_all n c = (r, c') \<Longrightarrow> \<exists>segs. c' = c\<lparr>video_inbound := segs\<rparr>"
  unfolding recv_all_def by (rule recv_loop_frame)

lemma recv_all_keeps:
  assumes "recv_all n c = (r, c')"
  shows "trace c' = trace c" "stream_thread c' = stream_thread c"
    "video_codec c' = video_codec c" "resolution c' = resolution c"
  using recv_all_frame [OF assms] by auto

lemma read_metadata_facts:
  assumes "read_metadata c = (r, c')"
  shows "\<exists>t. trace c' = trace c @ t \<and> published t = []"
    and "stream_thread c' = stream_thread c"
    and "r = Returns True \<Longrightarrow>
           lower (video_codec c') = ustr_of ''h264''
           \<and> (\<exists>w h. resolution c' = Some (w, h) \<and> (w, h) \<noteq> (0, 0))"
proof -
  obtain r1 c1 where a1: "recv_all DEVICE_NAME_FIELD_LENGTH c = (r1, c1)"
    by (cases "recv_all DEVICE_NAME_FIELD_LENGTH c")
  note k1 = recv_all_keeps [OF a1]
  have "(\<exists>t. trace c' = trace c @ t \<and> published t = [])
        \<and> stream_thread c' = stream_thread c
        \<and> (r = Returns True \<longrightarrow>
           lower (video_codec c') = ustr_of ''h264''
           \<and> (\<exists>w h. resolution c' = Some (w, h) \<and> (w, h) \<noteq> (0, 0)))"
  proof (cases r1)
    case (Raises x)
    with a1 assms have "c' = c1" "r = Raises x" by (simp_all add: read_metadata_def)
    with k1 show ?thesis by simp
  next
    case (Returns device_name_bytes)
    show ?thesis
    proof (cases "decode_utf8 device_name_bytes")
      case None
      with a1 Returns assms have "c' = c1" "r = Raises UnicodeDecodeError"
        by (simp_all add: read_metadata_def)
      with k1 show ?thesis by simp
    next
      case (Some name)
      let ?c2 = "log DEBUG ''Device name'' (c1\<lparr>device_name := rstrip_nul name\<rparr>)"
      obtain r3 c3 where a3: "recv_all CODEC_ID_FIELD_LENGTH ?c2 = (r3, c3)"
        by (cases "recv_all CODEC_ID_FIELD_LENGTH ?c2")
      note k3 = recv_all_keeps [OF a3]
      have t3: "trace c3 = trace c @ [Log DEBUG ''Device name'']"
        and s3: "stream_thread c3 = stream_thread c"
        using k1 k3 by (simp_all add: log_def emit_def)
      note start = a1 Returns Some a3
      show ?thesis
      proof (cases r3)
        case (Raises x)
        with start assms have "c' = c3" "r = Raises x"
          by (simp_all add: read_metadata_def Let_def)
        with t3 s3 show ?thesis by simp
      next
        case codec_bytes: (Returns codec_id_bytes)
        show ?thesis
        proof (cases "decode_utf8 codec_id_bytes")
          case None
          with start codec_bytes assms have "c' = c3" "r = Raises UnicodeDecodeError"
            by (simp_all add: read_metadata_def Let_def)
          with t3 s3 show ?thesis by simp
        next
          case codec: (Some codec)
          let ?c4 = "log DEBUG ''Video Codec'' (c3\<lparr>video_codec := codec\<rparr>)"
          have t4: "trace ?c4 = trace c @ [Log DEBUG ''Device name'', Log DEBUG ''Video Codec'']"
            and s4: "stream_thread ?c4 = stream_thread c"
            and v4: "video_codec ?c4 = codec"
            using t3 s3 by (simp_all add: log_def emit_def)
          show ?thesis
          proof (cases "lower codec = ustr_of ''h264''")
            case False
            with start codec_bytes codec v4 assms
            have "c' = log ERROR ''Unsupported codec. Only h264 is supported.'' ?c4"
              "r = Returns False"
              by (simp_all add: read_metadata_def Let_def)
            with t4 s4 show ?thesis by (simp add: log_def emit_def)
          next
            case True
            obtain r5 c5 where a5: "recv_all (fst VIDEO_HEADER_FIELD_LENGTH) ?c4 = (r5, c5)"
              by (cases "recv_all (fst VIDEO_HEADER_FIELD_LENGTH) ?c4")
            note k5 = recv_all_keeps [OF a5]
            show ?thesis
            proof (cases r5)
              case (Raises x)
              with start codec_bytes codec v4 True a5 assms have "c' = c5" "r = Raises x"
                by (simp_all add: read_metadata_def Let_def)
              with k5 t4 s4 show ?thesis by simp
            next
              case width: (Returns width_bytes)
              obtain r6 c6 where a6: "recv_all (snd VIDEO_HEADER_FIELD_LENGTH) c5 = (r6, c6)"
                by (cases "recv_all (snd VIDEO_HEADER_FIELD_LENGTH) c5")
              note k6 = recv_all_keeps [OF a6]
              show ?thesis
              proof (cases r6)
                case (Raises x)
                with start codec_bytes codec v4 True a5 width a6 assms
                have "c' = c6" "r = Raises x"
                  by (simp_all add: read_metadata_def Let_def)
                with k6 k5 t4 s4 show ?thesis by simp
              next
                case height: (Returns height_bytes)
                let ?w = "from_bytes_big width_bytes"
                let ?h = "from_bytes_big height_bytes"
                let ?c7 = "log DEBUG ''Resolution'' (c6\<lparr>resolution := Some (?w, ?h)\<rparr>)"
                have t7: "trace ?c7 = trace c @ [Log DEBUG ''Device name'',
                            Log DEBUG ''Video Codec'', Log DEBUG ''Resolution'']"
                  and s7: "stream_thread ?c7 = stream_thread c"
                  and v7: "video_codec ?c7 = codec"
                  and r7: "resolution ?c7 = Some (?w, ?h)"
                  using k6 k5 t4 s4 v4 by (simp_all add: log_def emit_def)
                show ?thesis
                proof (cases "(?w, ?h) = (0, 0)")
                  case zero: True
                  with start codec_bytes codec v4 True a5 width a6 height assms
                  have "c' = log ERROR ''Got 0x0 resolution. Is the device screen on?'' ?c7"
                    "r = Returns False"
                    by (simp_all add: read_metadata_def Let_def log_def emit_def)
                  with t7 s7 show ?thesis by (simp add: log_def emit_def)
                next
                  case False
                  with start codec_bytes codec v4 True a5 width a6 height assms
                  have "c' = ?c7" "r = Returns True"
                    by (auto simp: read_metadata_def Let_def log_def emit_def)
                  with t7 s7 v7 r7 True False show ?thesis by simp
                qed
              qed
            qed
          qed
        qed
      qed
    qed
  qed
  then show "\<exists>t. trace c' = trace c @ t \<and> published t = []"
    and "stream_thread c' = stream_thread c"
    and "r = Returns True \<Longrightarrow>
           lower (video_codec c') = ustr_of ''h264''
           \<and> (\<exists>w h. resolution c' = Some (w, h) \<and> (w, h) \<noteq> (0, 0))"
    by blast+
qed

lemma grows_refl [simp]: "grows c c []"
  by (simp add: grows_def)

lemma grows_trans: "grows a b p \<Longrightarrow> grows b c q \<Longrightarrow> grows a c (p @ q)"
  unfolding grows_def
proof -
  assume "\<exists>t. trace b = trace a @ t \<and> published t = p"
    and "\<exists>t. trace c = trace b @ t \<and> published t = q"
  then obtain t u where "trace b = trace a @ t" "published t = p"
    "trace c = trace b @ u" "published u = q" by blast
  then have "trace c = trace a @ (t @ u) \<and> published (t @ u) = p @ q" by simp
  then show "\<exists>t. trace c = trace a @ t \<and> published t = p @ q" ..
qed

lemma grows_quiet: "grows a b [] \<Longrightarrow> grows b c q \<Longrightarrow> grows a c q"
  using grows_trans [of a b "[]" c q] by simp

lemma grows_quiet2: "grows a b p \<Longrightarrow> grows b c [] \<Longrightarrow> grows a c p"
  using grows_trans [of a b p c "[]"] by simp

lemma grows_log [simp]: "grows c (log l m c) []"
  by (simp add: grows_def)

lemma grows_eqI: "trace c' = trace c @ t \<Longrightarrow> published t = ps \<Longrightarrow> grows c c' ps"
  by (auto simp: grows_def)

lemma push_server_facts:
  assumes "push_server e c = (r, c')"
  shows "grows c c' []" and "stream_thread c' = stream_thread c"
  using assms
  by (auto simp: push_server_def do_push_def Let_def log_def emit_def grows_def
           split: stat_outcome.splits if_splits)

lemma start_server_facts:
  assumes "start_server e c = (r, c')"
  shows "grows c c' []" and "stream_thread c' = stream_thread c"
  using assms
  by (auto simp: start_server_def Let_def log_def emit_def grows_def
           split: option.splits)

lemma accept_sockets_facts:
  assumes "accept_sockets e c = (r, c')"
  shows "grows c c' []" and "stream_thread c' = stream_thread c"
  using assms
  by (auto simp: accept_sockets_def Let_def log_def emit_def grows_def
           split: option.splits)

lemma fields_emit [simp]:
  "stream_thread (emit ef c) = stream_thread c"
  "video_codec (emit ef c) = video_codec c"
  "resolution (emit ef c) = resolution c"
  by (simp_all add: emit_def)

lemma fields_log [simp]:
  "stream_thread (log l m c) = stream_thread c"
  "video_codec (log l m c) = video_codec c"
  "resolution (log l m c) = resolution c"
  by (simp_all add: log_def)

lemma call_listeners_keeps:
  "stream_thread (call_listeners ev args k ls c) = stream_thread c"
  "video_codec (call_listeners ev args k ls c) = video_codec c"
  "resolution (call_listeners ev args k ls c) = resolution c"
  by (induction ls arbitrary: k c) (auto simp: Let_def split: option.splits)

lemma send_to_listeners_keeps:
  "stream_thread (send_to_listeners ev args c) = stream_thread c"
  "video_codec (send_to_listeners ev args c) = video_codec c"
  "resolution (send_to_listeners ev args c) = resolution c"
  by (simp_all add: send_to_listeners_def call_listeners_keeps)

lemma grows_send: "grows c (send_to_listeners ev args c) [(ev, args)]"
  using send_to_listeners_published [of ev args c] by (simp add: grows_def)

lemma try_connect_facts:
  assumes "try_connect e c = (r, c')"
  shows "grows c c' (if r = Returns True then [(INIT, NoArgs)] else [])"
    and "stream_thread c' = stream_thread c"
    and "r = Returns True \<Longrightarrow> metadata_ok c'"
proof -
  obtain r1 c1 where a: "accept_sockets e c = (r1, c1)" by (cases "accept_sockets e c")
  note f1 = accept_sockets_facts [OF a]
  have "grows c c' (if r = Returns True then [(INIT, NoArgs)] else [])
        \<and> stream_thread c' = stream_thread c \<and> (r = Returns True \<longrightarrow> metadata_ok c')"
  proof (cases r1)
    case (Raises x)
    with a assms have "r = Raises x" "c' = c1" by (simp_all add: try_connect_def)
    with f1 show ?thesis by simp
  next
    case (Returns u)
    obtain r2 c2 where m: "read_metadata c1 = (r2, c2)" by (cases "read_metadata c1")
    note f2 = read_metadata_facts [OF m]
    from f2(1) have g2: "grows c1 c2 []" by (simp add: grows_def)
    show ?thesis
    proof (cases "r2 = Returns True")
      case True
      with a Returns m assms have r: "r = Returns True"
        and c': "c' = send_to_listeners INIT NoArgs c2"
        by (simp_all add: try_connect_def)
      have "grows c c' [(INIT, NoArgs)]"
        unfolding c' by (rule grows_quiet [OF grows_quiet [OF f1(1) g2] grows_send])
      moreover have "metadata_ok c'"
        using f2(3) [OF True] by (simp add: metadata_ok_def c' send_to_listeners_keeps)
      moreover have "stream_thread c' = stream_thread c"
        using f1(2) f2(2) by (simp add: c' send_to_listeners_keeps)
      ultimately show ?thesis using r by simp
    next
      case False
      with a Returns m assms have "r = r2" "c' = c2"
        by (auto simp: try_connect_def split: outcome.splits bool.splits)
      with False f1 f2(2) grows_quiet [OF f1(1) g2] show ?thesis by simp
    qed
  qed
  then show "grows c c' (if r = Returns True then [(INIT, NoArgs)] else [])"
    and "stream_thread c' = stream_thread c"
    and "r = Returns True \<Longrightarrow> metadata_ok c'"
    by blast+
qed

lemma connect_handlers_facts:
  assumes "connect_handlers (r, c) = (r', c')"
  shows "grows c c' []" and "stream_thread c' = stream_thread c"
    and "(r' = Returns True) = (r = Returns True)"
    and "r' = Returns True \<Longrightarrow> c' = c"
  using assms
  by (auto simp: connect_handlers_def split: outcome.splits if_splits)

lemma connect_sockets_facts:
  assumes "connect_sockets e c = (r, c')"
  shows "grows c c' (if r = Returns True then [(INIT, NoArgs)] else [])"
    and "stream_thread c' = stream_thread c"
    and "r = Returns True \<Longrightarrow> metadata_ok c'"
proof -
  let ?c1 = "log DEBUG ''Setting up reverse tunnel...'' c"
  let ?c2 = "emit (Bind_listen (ephemeral_port e)) (?c1\<lparr>local_port := Some (ephemeral_port e)\<rparr>)"
  let ?c3 = "emit (Reverse (''localabstract:'' @ socket_name ?c2) (ephemeral_port e)) ?c2"
  have g3: "grows c ?c3 []" and s3: "stream_thread ?c3 = stream_thread c"
    by (simp_all add: grows_def log_def emit_def)
  have "grows c c' (if r = Returns True then [(INIT, NoArgs)] else [])
        \<and> stream_thread c' = stream_thread c \<and> (r = Returns True \<longrightarrow> metadata_ok c')"
  proof (cases "reverse_raises e")
    case True
    with assms have "r = Raises AdbError" "c' = ?c3"
      by (simp_all add: connect_sockets_def Let_def)
    with g3 s3 show ?thesis by simp
  next
    case False
    obtain r4 c4 where ss: "start_server e ?c3 = (r4, c4)" by (cases "start_server e ?c3")
    note f4 = start_server_facts [OF ss]
    show ?thesis
    proof (cases r4)
      case (Raises x)
      with False ss assms have "r = Raises x" "c' = c4"
        by (simp_all add: connect_sockets_def Let_def)
      with grows_quiet [OF g3 f4(1)] f4(2) s3 show ?thesis by simp
    next
      case (Returns u)
      obtain r5 c5 where tc: "try_connect e c4 = (r5, c5)" by (cases "try_connect e c4")
      note f5 = try_connect_facts [OF tc]
      obtain r6 c6 where ch: "connect_handlers (r5, c5) = (r6, c6)"
        by (cases "connect_handlers (r5, c5)")
      note f6 = connect_handlers_facts [OF ch]
      from False ss Returns tc ch assms have r: "r = r6" and c': "c' = emit Close_listening c6"
        by (simp_all add: connect_sockets_def Let_def)
      have g: "grows c c6 (if r5 = Returns True then [(INIT, NoArgs)] else [])"
        by (rule grows_quiet2 [OF grows_quiet [OF grows_quiet [OF g3 f4(1)] f5(1)] f6(1)])
      have "grows c6 c' []" by (simp add: c' grows_def)
      from grows_quiet2 [OF g this] f6(3) r
      have "grows c c' (if r = Returns True then [(INIT, NoArgs)] else [])" by simp
      moreover have "stream_thread c' = stream_thread c"
        using f6(2) f5(2) f4(2) s3 by (simp add: c' emit_def)
      moreover have "r = Returns True \<longrightarrow> metadata_ok c'"
        using f6(3,4) f5(3) r by (auto simp: c' metadata_ok_def emit_def)
      ultimately show ?thesis by simp
    qed
  qed
  then show "grows c c' (if r = Returns True then [(INIT, NoArgs)] else [])"
    and "stream_thread c' = stream_thread c"
    and "r = Returns True \<Longrightarrow> metadata_ok c'"
    by blast+
qed

lemma stop_facts:
  "grows c (stop x c) []" "stream_thread (stop x c) \<noteq> Some Alive"
proof -
  show "grows c (stop x c) []"
    by (rule grows_eqI [where t = "drop (length (trace c)) (trace (stop x c))"])
       (simp_all add: stop_eq)
  show "stream_thread (stop x c) \<noteq> Some Alive"
    by (simp add: stop_eq split: option.splits worker.splits)
qed

lemma start_facts:
  assumes "start e lib threaded c = (r, c')"
  shows "grows c c' []
         \<or> (\<exists>fs. grows c c' ((INIT, NoArgs) # frame_events fs) \<and> handshake_ok e c)"
    and "threaded \<Longrightarrow> stream_thread c \<noteq> Some Alive \<Longrightarrow> stream_thread c' = Some Alive \<Longrightarrow>
           grows c c' [(INIT, NoArgs)] \<and> handshake_ok e c"
proof -
  let ?A = "grows c c' []
         \<or> (\<exists>fs. grows c c' ((INIT, NoArgs) # frame_events fs) \<and> handshake_ok e c)"
  let ?B = "threaded \<longrightarrow> stream_thread c \<noteq> Some Alive \<longrightarrow> stream_thread c' = Some Alive \<longrightarrow>
           grows c c' [(INIT, NoArgs)] \<and> handshake_ok e c"
  have "?A \<and> ?B"
  proof (cases "is_running c")
    case True
    with assms have "c' = log WARNING ''Client is already running.'' c"
      by (simp add: start_def)
    then show ?thesis by simp
  next
    case False
    obtain r1 c1 where p: "push_server e c = (r1, c1)" by (cases "push_server e c")
    note f1 = push_server_facts [OF p]
    show ?thesis
    proof (cases r1)
      case (Raises x)
      with False p assms have "c' = c1" by (simp add: start_def)
      with f1 show ?thesis by simp
    next
      case (Returns u)
      obtain r2 c2 where cs: "connect_sockets e c1 = (r2, c2)"
        by (cases "connect_sockets e c1")
      note f2 = connect_sockets_facts [OF cs]
      show ?thesis
      proof (cases r2)
        case (Raises x)
        with False p Returns cs assms have "c' = c2" by (simp add: start_def)
        moreover from Raises f2(1) have "grows c1 c2 []" by simp
        ultimately show ?thesis using grows_quiet [OF f1(1)] f1(2) f2(2) by simp
      next
        case ok: (Returns ok)
        show ?thesis
        proof (cases ok)
          case False
          with \<open>\<not> is_running c\<close> p Returns cs ok assms
          have c': "c' = stop (shell_raises e) c2" by (simp add: start_def)
          from False ok f2(1) have "grows c1 c2 []" by simp
          from grows_quiet [OF grows_quiet [OF f1(1) this] stop_facts(1)]
          have "grows c c' []" by (simp add: c')
          with stop_facts(2) [of "shell_raises e" c2] show ?thesis by (simp add: c')
        next
          case True
          let ?c3 = "c2\<lparr>is_running := True\<rparr>"
          from True ok f2(1) have "grows c1 c2 [(INIT, NoArgs)]" by simp
          from grows_quiet [OF f1(1) this] have g2: "grows c c2 [(INIT, NoArgs)]" .
          then have g3: "grows c ?c3 [(INIT, NoArgs)]" by (simp add: grows_def)
          from True ok f2(3) p Returns cs have hs: "handshake_ok e c"
            by (auto simp: handshake_ok_def)
          show ?thesis
          proof (cases threaded)
            case spawned: True
            with \<open>\<not> is_running c\<close> p Returns cs ok True assms
            have c': "c' = emit Start_worker (?c3\<lparr>stream_thread := Some Alive\<rparr>)"
              by (simp add: start_def Let_def)
            have "grows ?c3 c' []"
              by (simp add: c' grows_def emit_def)
            from grows_quiet2 [OF g3 this] have "grows c c' [(INIT, NoArgs)]" .
            moreover have "[(INIT, NoArgs)] = (INIT, NoArgs) # frame_events []"
              by (simp add: frame_events_def)
            ultimately show ?thesis using hs by metis
          next
            case inline: False
            with \<open>\<not> is_running c\<close> p Returns cs ok True assms
            have sl: "stream_loop lib ?c3 = (r, c')"
              by (simp add: start_def Let_def)
            from stream_loop_published [OF sl] obtain fs where
              "grows ?c3 c' (frame_events fs)" by (auto simp: grows_def)
            from grows_trans [OF g3 this]
            have "grows c c' ((INIT, NoArgs) # frame_events fs)" by simp
            with hs inline show ?thesis by auto
          qed
        qed
      qed
    qed
  qed
  then show ?A and "threaded \<Longrightarrow> stream_thread c \<noteq> Some Alive \<Longrightarrow>
           stream_thread c' = Some Alive \<Longrightarrow> grows c c' [(INIT, NoArgs)] \<and> handshake_ok e c"
    by blast+
qed

lemma run_worker_facts:
  "\<exists>fs. grows c (run_worker lib c) (frame_events fs)"
proof (cases "stream_thread c = Some Alive")
  case True
  obtain r c1 where sl: "stream_loop lib c = (r, c1)" by (cases "stream_loop lib c")
  from stream_loop_published [OF sl] obtain fs where "grows c c1 (frame_events fs)"
    by (auto simp: grows_def)
  moreover from True sl have "run_worker lib c = c1\<lparr>stream_thread := Some Finished\<rparr>"
    by (simp add: run_worker_def)
  ultimately have "grows c (run_worker lib c) (frame_events fs)" by (simp add: grows_def)
  then show ?thesis ..
next
  case False
  then have "run_worker lib c = c"
    by (auto simp: run_worker_def split: option.splits worker.splits)
  then have "grows c (run_worker lib c) (frame_events [])" by (simp add: frame_events_def)
  then show ?thesis ..
qed

lemma run_worker_idle: "stream_thread c \<noteq> Some Alive \<Longrightarrow> run_worker lib c = c"
  by (auto simp: run_worker_def split: option.splits worker.splits)

text \<open>
  Claim C6. Take a client with no live worker and one session on it: one \<open>start\<close>, inline
  or threaded, and the run of the worker it creates. The events published in the session
  are none at all, or one \<open>init\<close> followed by \<open>frame\<close> events only: \<open>init\<close> is published at
  most once and before every \<open>frame\<close>. And when any event is published the handshake
  succeeded: the codec is \<open>h264\<close> up to case and the resolution is not \<open>(0, 0)\<close>.
\<close>

theorem init_once_before_frames:
  assumes "stream_thread c \<noteq> Some Alive"
  shows "\<exists>t. trace (snd (session e lib threaded c)) = trace c @ t
           \<and> (published t = [] \<or> (\<exists>fs. published t = (INIT, NoArgs) # frame_events fs))
           \<and> (published t \<noteq> [] \<longrightarrow> handshake_ok e c)"
proof -
  obtain r c1 where st: "start e lib threaded c = (r, c1)" by (cases "start e lib threaded c")
  note f = start_facts [OF st]
  let ?c' = "snd (session e lib threaded c)"
  have "grows c ?c' []
         \<or> (\<exists>fs. grows c ?c' ((INIT, NoArgs) # frame_events fs) \<and> handshake_ok e c)"
  proof (cases "threaded \<and> stream_thread c1 = Some Alive")
    case False
    then have "?c' = c1"
      using st by (auto simp: session_def run_worker_idle)
    with f(1) show ?thesis by simp
  next
    case True
    then have c': "?c' = run_worker lib c1" using st by (simp add: session_def)
    from f(2) True assms have g: "grows c c1 [(INIT, NoArgs)]" and hs: "handshake_ok e c"
      by auto
    from run_worker_facts [of c1 lib] obtain fs where "grows c1 ?c' (frame_events fs)"
      by (auto simp: c')
    from grows_trans [OF g this] have "grows c ?c' ((INIT, NoArgs) # frame_events fs)" by simp
    with hs show ?thesis by blast
  qed
  then show ?thesis
    by (auto simp: grows_def)
qed

lemma recv_all_first:
  assumes "video_socket c = Some Open" "video_inbound c = Bytes bs # r" "0 < n" "n \<le> length bs"
  shows "recv_all n c =
           (Returns (take n bs),
            c\<lparr>video_inbound := (if length bs \<le> n then r else Bytes (drop n bs) # r)\<rparr>)"
proof -
  let ?c1 = "c\<lparr>video_inbound := (if length bs \<le> n then r else Bytes (drop n bs) # r)\<rparr>"
  have r: "sock_recv n c = (Got (take n bs), ?c1)"
    using assms by (simp add: sock_recv_def)
  have ne: "take n bs \<noteq> []" using assms(3,4) by auto
  have fin: "recv_loop n (take n bs) ?c1 = (Returns (take n bs), ?c1)"
    using assms(4) by (subst recv_loop.simps) simp
  show ?thesis
    unfolding recv_all_def
    using assms(3) r ne fin by (subst recv_loop.simps) simp
qed

lemma recv_all_eval:
  "video_socket c = Some Open \<Longrightarrow> 0 < n \<Longrightarrow> n \<le> length (first_bytes c) \<Longrightarrow>
     recv_all n c =
       (Returns (take n (first_bytes c)),
        c\<lparr>video_inbound :=
            (if length (first_bytes c) \<le> n then tl (video_inbound c)
             else Bytes (drop n (first_bytes c)) # tl (video_inbound c))\<rparr>)"
proof -
  assume a: "video_socket c = Some Open" "0 < n" "n \<le> length (first_bytes c)"
  then have "first_bytes c \<noteq> []" by auto
  then obtain bs r where v: "video_inbound c = Bytes bs # r"
    by (auto simp: first_bytes_def split: list.splits segment.splits)
  then have fb: "first_bytes c = bs" by (simp add: first_bytes_def)
  from recv_all_first [OF a(1) v a(2)] a(3) fb v show ?thesis by simp
qed

lemma recv_loop_stream:
  assumes "video_socket c = Some Open" "video_inbound c = map Bytes chunks @ rest"
    "list_all (\<lambda>ch. ch \<noteq> []) chunks" "length data \<le> n"
    "n - length data \<le> length (concat chunks)"
  shows "\<exists>chunks'. recv_loop n data c =
             (Returns (data @ take (n - length data) (concat chunks)),
              c\<lparr>video_inbound := map Bytes chunks' @ rest\<rparr>)
           \<and> list_all (\<lambda>ch. ch \<noteq> []) chunks'
           \<and> concat chunks' = drop (n - length data) (concat chunks)"
  using assms
proof (induction chunks arbitrary: data c)
  case Nil
  then have "length data = n" by simp
  then have "recv_loop n data c = (Returns data, c)"
    by (subst recv_loop.simps) simp
  with Nil show ?case by (intro exI [of _ "[]"]) simp
next
  case (Cons ch chs)
  show ?case
  proof (cases "length data = n")
    case True
    then have "recv_loop n data c = (Returns data, c)"
      by (subst recv_loop.simps) simp
    with True Cons.prems show ?thesis by (intro exI [of _ "ch # chs"]) simp
  next
    case False
    with Cons.prems(4) have lt: "length data < n" by simp
    define k where "k = n - length data"
    have k0: "0 < k" using lt by (simp add: k_def)
    from Cons.prems(3) have ne: "ch \<noteq> []" and nes: "list_all (\<lambda>ch. ch \<noteq> []) chs" by auto
    show ?thesis
    proof (cases "length ch \<le> k")
      case True
      let ?c1 = "c\<lparr>video_inbound := map Bytes chs @ rest\<rparr>"
      have r: "sock_recv k c = (Got ch, ?c1)"
        using Cons.prems(1,2) True by (simp add: sock_recv_def)
      have step: "recv_loop n data c = recv_loop n (data @ ch) ?c1"
        using lt r ne by (subst recv_loop.simps) (simp add: k_def)
      have "length (data @ ch) \<le> n" using True lt by (simp add: k_def)
      moreover have "n - length (data @ ch) \<le> length (concat chs)"
        using Cons.prems(5) True by (simp add: k_def)
      ultimately obtain chunks' where
        ih: "recv_loop n (data @ ch) ?c1 =
               (Returns ((data @ ch) @ take (n - length (data @ ch)) (concat chs)),
                ?c1\<lparr>video_inbound := map Bytes chunks' @ rest\<rparr>)"
          "list_all (\<lambda>ch. ch \<noteq> []) chunks'"
          "concat chunks' = drop (n - length (data @ ch)) (concat chs)"
        using Cons.IH [of ?c1 "data @ ch"] Cons.prems(1) nes by auto
      have a: "n - length (data @ ch) = k - length ch" by (simp add: k_def)
      note ih' = ih [unfolded a]
      have "recv_loop n data c =
              (Returns (data @ take k (concat (ch # chs))),
               c\<lparr>video_inbound := map Bytes chunks' @ rest\<rparr>)"
        unfolding step ih'(1) using True by simp
      moreover have "concat chunks' = drop k (concat (ch # chs))"
        unfolding ih'(3) using True by simp
      ultimately show ?thesis
        using ih(2) unfolding k_def by blast
    next
      case False
      then have long: "k < length ch" by simp
      let ?c1 = "c\<lparr>video_inbound := map Bytes (drop k ch # chs) @ rest\<rparr>"
      have r: "sock_recv k c = (Got (take k ch), ?c1)"
        using Cons.prems(1,2) False by (simp add: sock_recv_def)
      have tk: "take k ch \<noteq> []" using k0 ne by auto
      have len: "length (data @ take k ch) = n" using long lt by (simp add: k_def)
      have fin: "recv_loop n (data @ take k ch) ?c1 = (Returns (data @ take k ch), ?c1)"
        using len by (subst recv_loop.simps) simp
      have "recv_loop n data c = (Returns (data @ take k ch), ?c1)"
        using lt r tk fin by (subst recv_loop.simps) (simp add: k_def)
      then have "recv_loop n data c =
              (Returns (data @ take k (concat (ch # chs))),
               c\<lparr>video_inbound := map Bytes (drop k ch # chs) @ rest\<rparr>)"
        using long by simp
      moreover have "list_all (\<lambda>ch. ch \<noteq> []) (drop k ch # chs)"
        using long nes by simp
      moreover have "concat (drop k ch # chs) = drop k (concat (ch # chs))"
        using long by simp
      ultimately show ?thesis unfolding k_def by blast
    qed
  qed
qed

lemma recv_all_stream:
  assumes "video_socket c = Some Open" "video_inbound c = map Bytes chunks @ rest"
    "list_all (\<lambda>ch. ch \<noteq> []) chunks" "n \<le> length (concat chunks)"
  shows "\<exists>chunks'. recv_all n c =
             (Returns (take n (concat chunks)), c\<lparr>video_inbound := map Bytes chunks' @ rest\<rparr>)
           \<and> list_all (\<lambda>ch. ch \<noteq> []) chunks'
           \<and> concat chunks' = drop n (concat chunks)"
  using recv_loop_stream [OF assms(1-3), of "[]" n] assms(4) by (simp add: recv_all_def)

lemma bootstrap_reaches_metadata:
  assumes "\<not> is_running c" and "fst (push_server e c) = Returns ()"
    and "\<not> reverse_raises e" and "serial e \<noteq> None" and "popen_raises e = None"
    and "video_accept e = Accepted" and "control_accept e = Accepted"
  shows "\<exists>c1 c4 c5. push_server e c = (Returns (), c1)
           \<and> video_socket c5 = Some Open \<and> control_socket c5 = Some Open
           \<and> server_process c5 = Some Running \<and> \<not> is_running c5
           \<and> video_inbound c5 = inbound e
           \<and> connect_sockets e c1 =
               (let (r, c7) = connect_handlers (try_connect e c4) in (r, emit Close_listening c7))
           \<and> accept_sockets e c4 = (Returns (), c5)"
proof -
  obtain c1 where p: "push_server e c = (Returns (), c1)"
    using assms(2) by (cases "push_server e c") auto
  from assms(4) obtain ser where ser: "serial e = Some ser" by auto
  have run1: "\<not> is_running c1"
    using p assms(1)
    by (auto simp: push_server_def do_push_def Let_def log_def emit_def
             split: stat_outcome.splits if_splits)
  let ?c2 = "emit (Bind_listen (ephemeral_port e))
               ((log DEBUG ''Setting up reverse tunnel...'' c1)
                  \<lparr>local_port := Some (ephemeral_port e)\<rparr>)"
  let ?c3 = "emit (Reverse (''localabstract:'' @ socket_name ?c2) (ephemeral_port e)) ?c2"
  obtain c4 where ss: "start_server e ?c3 = (Returns (), c4)"
    and f4: "server_process c4 = Some Running" "\<not> is_running c4"
    using ser assms(5) run1 by (simp add: start_server_def Let_def log_def emit_def)
  obtain c5 where ac: "accept_sockets e c4 = (Returns (), c5)"
    and f5: "video_socket c5 = Some Open" "control_socket c5 = Some Open"
      "video_inbound c5 = inbound e" "server_process c5 = Some Running"
      "\<not> is_running c5"
    using assms(6,7) f4
    by (simp add: accept_sockets_def accept_raises_def Let_def log_def emit_def)
  have "connect_sockets e c1 =
          (let (r, c7) = connect_handlers (try_connect e c4) in (r, emit Close_listening c7))"
    using assms(3) ss by (simp add: connect_sockets_def Let_def)
  with p ac f5 show ?thesis by blast
qed

lemma read_metadata_stream:
  assumes "video_socket c = Some Open" and "video_inbound c = map Bytes chunks @ rest"
    and "list_all (\<lambda>ch. ch \<noteq> []) chunks" and "68 \<le> length (concat chunks)"
  shows "decode_utf8 (take 64 (concat chunks)) = None
           \<or> decode_utf8 (take 4 (drop 64 (concat chunks))) = None \<Longrightarrow>
         \<exists>c'. read_metadata c = (Raises UnicodeDecodeError, c') \<and> same_handles c c'"
    and "decode_utf8 (take 64 (concat chunks)) = Some name \<Longrightarrow>
         decode_utf8 (take 4 (drop 64 (concat chunks))) = Some codec \<Longrightarrow>
         lower codec \<noteq> ustr_of ''h264'' \<Longrightarrow>
         \<exists>c'. read_metadata c = (Returns False, c') \<and> same_handles c c'
              \<and> video_codec c' = codec \<and> device_name c' = rstrip_nul name"
proof -
  from recv_all_stream [OF assms(1-3), of 64] assms(4) obtain chunks1 where
    r1: "recv_all 64 c = (Returns (take 64 (concat chunks)),
                          c\<lparr>video_inbound := map Bytes chunks1 @ rest\<rparr>)"
    and n1: "list_all (\<lambda>ch. ch \<noteq> []) chunks1"
    and c1: "concat chunks1 = drop 64 (concat chunks)"
    by auto
  let ?c1 = "c\<lparr>video_inbound := map Bytes chunks1 @ rest\<rparr>"
  have second: "\<exists>chunks2. recv_all 4 (log DEBUG ''Device name'' (?c1\<lparr>device_name := nm\<rparr>)) =
            (Returns (take 4 (drop 64 (concat chunks))),
             (log DEBUG ''Device name'' (?c1\<lparr>device_name := nm\<rparr>))
               \<lparr>video_inbound := map Bytes chunks2 @ rest\<rparr>)" for nm
  proof -
    let ?c2 = "log DEBUG ''Device name'' (?c1\<lparr>device_name := nm\<rparr>)"
    have o2: "video_socket ?c2 = Some Open" and v2: "video_inbound ?c2 = map Bytes chunks1 @ rest"
      using assms(1) by (simp_all add: log_def emit_def)
    have l2: "4 \<le> length (concat chunks1)" using c1 assms(4) by simp
    from recv_all_stream [OF o2 v2 n1 l2] obtain chunks2 where
      "recv_all 4 ?c2 = (Returns (take 4 (concat chunks1)),
          ?c2\<lparr>video_inbound := map Bytes chunks2 @ rest\<rparr>)" by blast
    then show ?thesis unfolding c1 by blast
  qed
  {
    assume bad: "decode_utf8 (take 64 (concat chunks)) = None
           \<or> decode_utf8 (take 4 (drop 64 (concat chunks))) = None"
    show "\<exists>c'. read_metadata c = (Raises UnicodeDecodeError, c') \<and> same_handles c c'"
    proof (cases "decode_utf8 (take 64 (concat chunks))")
      case None
      with r1 show ?thesis
        by (simp add: read_metadata_def DEVICE_NAME_FIELD_LENGTH_def same_handles_def)
    next
      case (Some nm)
      with bad have b: "decode_utf8 (take 4 (drop 64 (concat chunks))) = None" by simp
      from second [of "rstrip_nul nm"] obtain chunks2 where
        "recv_all 4 (log DEBUG ''Device name'' (?c1\<lparr>device_name := rstrip_nul nm\<rparr>)) =
            (Returns (take 4 (drop 64 (concat chunks))),
             (log DEBUG ''Device name'' (?c1\<lparr>device_name := rstrip_nul nm\<rparr>))
               \<lparr>video_inbound := map Bytes chunks2 @ rest\<rparr>)" ..
      with r1 Some b show ?thesis
        by (simp add: read_metadata_def DEVICE_NAME_FIELD_LENGTH_def CODEC_ID_FIELD_LENGTH_def
              Let_def same_handles_def log_def emit_def)
    qed
  }
  {
    assume nm: "decode_utf8 (take 64 (concat chunks)) = Some name"
      and cd: "decode_utf8 (take 4 (drop 64 (concat chunks))) = Some codec"
      and un: "lower codec \<noteq> ustr_of ''h264''"
    from second [of "rstrip_nul name"] obtain chunks2 where
      "recv_all 4 (log DEBUG ''Device name'' (?c1\<lparr>device_name := rstrip_nul name\<rparr>)) =
          (Returns (take 4 (drop 64 (concat chunks))),
           (log DEBUG ''Device name'' (?c1\<lparr>device_name := rstrip_nul name\<rparr>))
             \<lparr>video_inbound := map Bytes chunks2 @ rest\<rparr>)" ..
    with r1 nm cd un
    show "\<exists>c'. read_metadata c = (Returns False, c') \<and> same_handles c c'
              \<and> video_codec c' = codec \<and> device_name c' = rstrip_nul name"
      by (simp add: read_metadata_def DEVICE_NAME_FIELD_LENGTH_def CODEC_ID_FIELD_LENGTH_def
            Let_def same_handles_def log_def emit_def)
  }
qed

lemmas start_eval =
  start_def new_client_def demo_env_def push_server_def Let_def log_def emit_def
  connect_sockets_def start_server_def try_connect_def accept_sockets_def
  accept_raises_def read_metadata_def recv_all_eval first_bytes_def demo_name_def
  DEVICE_NAME_FIELD_LENGTH_def CODEC_ID_FIELD_LENGTH_def VIDEO_HEADER_FIELD_LENGTH_def
  decode_utf8_def cont_def lower_def lower_cp_def ustr_of_def connect_handlers_def
  rstrip_nul_def from_bytes_big_def send_to_listeners_def stop_eq port_set_def

lemma utf8_cjk_name: "decode_utf8 cjk_name = None"
  by (simp add: decode_utf8_def cjk_name_def cont_def)

theorem init_once_before_frames_witness:
  "stream_thread (new_client 6699 None) \<noteq> Some Alive
   \<and> published (trace (snd (session
        (demo_env [demo_name @ [104, 50, 54, 52] @ [0, 0, 4, 56] @ [0, 0, 9, 96]
                     @ [0, 0, 0, 0, 0, 0, 0, 0] @ [0, 0, 0, 2] @ [7, 8],
                    [0, 0, 0, 0, 0, 0, 0, 0] @ [0, 0, 0, 1] @ [9]])
        demo_av False (new_client 6699 None))))
     = (INIT, NoArgs) # frame_events [[1, 2, 3], [1, 2, 3]]
   \<and> handshake_ok
        (demo_env [demo_name @ [104, 50, 54, 52] @ [0, 0, 4, 56] @ [0, 0, 9, 96]
                     @ [0, 0, 0, 0, 0, 0, 0, 0] @ [0, 0, 0, 2] @ [7, 8],
                    [0, 0, 0, 0, 0, 0, 0, 0] @ [0, 0, 0, 1] @ [9]])
        (new_client 6699 None)"
proof -
  let ?e = "demo_env [demo_name @ [104, 50, 54, 52] @ [0, 0, 4, 56] @ [0, 0, 9, 96]
                     @ [0, 0, 0, 0, 0, 0, 0, 0] @ [0, 0, 0, 2] @ [7, 8],
                    [0, 0, 0, 0, 0, 0, 0, 0] @ [0, 0, 0, 1] @ [9]]"
  let ?c = "new_client 6699 None"
  have fresh: "stream_thread ?c \<noteq> Some Alive" "trace ?c = []"
    by (simp_all add: new_client_def)
  have ev: "published (trace (snd (session ?e demo_av False ?c)))
              = (INIT, NoArgs) # frame_events [[1, 2, 3], [1, 2, 3]]"
    by (simp add: session_def start_eval stream_loop_def stream_iter.simps extract_loop.simps
          sock_recv_def slice_def demo_av_def demo_decoder_def loop_handlers_def
          frame_events_def)
  from init_once_before_frames [OF fresh(1), of ?e demo_av False] fresh(2) ev
  have "handshake_ok ?e ?c" by auto
  with fresh(1) ev show ?thesis by simp
qed

section \<open>Properties of the handshake\<close>

text \<open>
  Claim C10. Let the server file be in place, the tunnel and the server start, both sockets
  connect and the first 68 bytes of the video channel arrive, in any pieces. If the 64 bytes
  of the device name, or the 4 bytes of the codec, are not valid UTF-8, \<open>start\<close> raises
  \<open>UnicodeDecodeError\<close> to its caller: the handlers of the handshake catch socket errors only.
  \<open>stop\<close> is not called: both sockets stay open and the server process runs on.
\<close>

theorem undecodable_metadata_raises:
  assumes "\<not> is_running c" and "fst (push_server e c) = Returns ()"
    and "\<not> reverse_raises e" and "serial e \<noteq> None" and "popen_raises e = None"
    and "video_accept e = Accepted" and "control_accept e = Accepted"
    and "inbound e = map Bytes chunks @ rest" and "list_all (\<lambda>ch. ch \<noteq> []) chunks"
    and "68 \<le> length (concat chunks)"
    and "decode_utf8 (take 64 (concat chunks)) = None
         \<or> decode_utf8 (take 4 (drop 64 (concat chunks))) = None"
  shows "fst (start e lib threaded c) = Raises UnicodeDecodeError
         \<and> \<not> is_running (snd (start e lib threaded c))
         \<and> video_socket (snd (start e lib threaded c)) = Some Open
         \<and> control_socket (snd (start e lib threaded c)) = Some Open
         \<and> server_process (snd (start e lib threaded c)) = Some Running"
proof -
  from bootstrap_reaches_metadata [OF assms(1-7)] obtain c1 c4 c5 where
    p: "push_server e c = (Returns (), c1)" and
    f5: "video_socket c5 = Some Open" "control_socket c5 = Some Open"
      "server_process c5 = Some Running" "\<not> is_running c5" "video_inbound c5 = inbound e" and
    cs: "connect_sockets e c1 =
           (let (r, c7) = connect_handlers (try_connect e c4) in (r, emit Close_listening c7))" and
    ac: "accept_sockets e c4 = (Returns (), c5)"
    by blast
  from f5(5) assms(8) have v5: "video_inbound c5 = map Bytes chunks @ rest" by simp
  from read_metadata_stream(1) [OF f5(1) v5 assms(9,10,11)] obtain c6 where
    rm: "read_metadata c5 = (Raises UnicodeDecodeError, c6)" and sh: "same_handles c5 c6"
    by blast
  have tc: "try_connect e c4 = (Raises UnicodeDecodeError, c6)"
    using ac rm by (simp add: try_connect_def)
  have "connect_sockets e c1 = (Raises UnicodeDecodeError, emit Close_listening c6)"
    unfolding cs tc by (simp add: connect_handlers_def)
  with assms(1) p have "start e lib threaded c = (Raises UnicodeDecodeError, emit Close_listening c6)"
    by (simp add: start_def)
  with sh f5 show ?thesis by (simp add: same_handles_def emit_def)
qed

theorem undecodable_metadata_raises_witness:
  "\<not> is_running (new_client 6699 None)
   \<and> fst (push_server (demo_env [take 30 demo_name, drop 30 demo_name @ [255, 50, 54, 52]])
           (new_client 6699 None)) = Returns ()
   \<and> decode_utf8 (take 4 (drop 64 (concat [take 30 demo_name,
                                             drop 30 demo_name @ [255, 50, 54, 52]]))) = None
   \<and> fst (start (demo_env [take 30 demo_name, drop 30 demo_name @ [255, 50, 54, 52]])
           demo_av True (new_client 6699 None)) = Raises UnicodeDecodeError"
  using undecodable_metadata_raises [of "new_client 6699 None"
      "demo_env [take 30 demo_name, drop 30 demo_name @ [255, 50, 54, 52]]"
      "[take 30 demo_name, drop 30 demo_name @ [255, 50, 54, 52]]" "[]" demo_av True]
  by (simp add: new_client_def demo_env_def push_server_def Let_def log_def emit_def
        demo_name_def decode_utf8_def cont_def)




end
